theory Spec2Isabelle
  imports Complex_Main "HOL-Library.Log_Nat"
begin

section \<open>The frame extractor of \<open>utils/grame_extractor.py\<close>\<close>

text \<open>
  The program opens a video, computes \<open>num_frames\<close> target indices, decodes the video
  once from its first frame and writes every frame whose position equals the next target
  as \<open>frame_NNNN.png\<close>. The embedding follows \<open>extract_frames\<close> statement by
  statement. Everything outside the function (the decoder, the file system, the console)
  is a record \<open>world\<close> that each library call takes and returns.

  The type variable \<open>'f\<close> is the type of a decoded frame.
\<close>

subsection \<open>Errors\<close>

text \<open>
  Both \<open>raise\<close> statements of the source raise \<open>RuntimeError\<close> with a message.
  \<open>IndexError\<close> is what the subscript \<open>frame_indices[target_idx]\<close> raises out of range.
  \<open>OSError\<close> is what \<open>os.makedirs\<close> raises, in one of its subclasses.
\<close>

datatype os_error = FileNotFoundError | FileExistsError | NotADirectoryError | PermissionError

datatype error = RuntimeError string | IndexError | OSError os_error

subsection \<open>The world: decoder, file system, console\<close>

text \<open>
  A capture object: whether it is open, the value of
  \<open>int(cap.get(cv2.CAP_PROP_FRAME_COUNT))\<close>, and the results of the calls of
  \<open>cap.read()\<close> still to come, in order: \<open>Some frame\<close> for \<open>(True, frame)\<close>,
  \<open>None\<close> for a read that reports failure. Once the list is used up every read fails.
  The reported \<open>frame_count\<close> is independent of how many frames the stream yields.
\<close>

record 'f VideoCapture =
  opened :: bool
  frame_count :: int
  stream :: "'f option list"

text \<open>
  \<open>captures w p\<close> is the capture object for path \<open>p\<close>: before the call, the object that
  \<open>cv2.VideoCapture(p)\<close> returns; afterwards, the state this object was left in.
  \<open>dirs\<close> are the directories, \<open>files\<close> maps the path of a regular file to the frame
  stored in it. \<open>refuses w p\<close> is the error with which the operating system refuses to
  create the directory \<open>p\<close>, if it does (no permission, a regular file among the parents,
  a read-only file system).
\<close>

record 'f world =
  captures :: "string \<Rightarrow> 'f VideoCapture"
  dirs :: "string set"
  files :: "string \<rightharpoonup> 'f"
  refuses :: "string \<Rightarrow> os_error option"
  console :: "string list"

text \<open>
  \<open>os.makedirs(p, exist_ok=True)\<close> raises \<open>FileNotFoundError\<close> for the empty path and
  \<open>FileExistsError\<close> when \<open>p\<close> is a regular file, and passes on what the operating
  system refuses; a directory that is there already is no error.
\<close>

definition os_makedirs :: "string \<Rightarrow> 'f world \<Rightarrow> error + 'f world" where
  "os_makedirs p w =
     (if p = [] then Inl (OSError FileNotFoundError)
      else if files w p \<noteq> None then Inl (OSError FileExistsError)
      else case refuses w p of
             Some e \<Rightarrow> Inl (OSError e)
           | None \<Rightarrow> Inr (w\<lparr>dirs := insert p (dirs w)\<rparr>))"

definition isOpened :: "string \<Rightarrow> 'f world \<Rightarrow> bool" where
  "isOpened cap w = opened (captures w cap)"

definition get_frame_count :: "string \<Rightarrow> 'f world \<Rightarrow> int" where
  \<comment> \<open>\<open>int(cap.get(cv2.CAP_PROP_FRAME_COUNT))\<close>\<close>
  "get_frame_count cap w = frame_count (captures w cap)"

definition advance :: "string \<Rightarrow> 'f option list \<Rightarrow> 'f world \<Rightarrow> 'f world" where
  \<comment> \<open>the capture \<open>cap\<close> has consumed one read; \<open>rs\<close> are the reads left\<close>
  "advance cap rs w = w\<lparr>captures := (captures w)(cap := (captures w cap)\<lparr>stream := rs\<rparr>)\<rparr>"

definition read :: "string \<Rightarrow> 'f world \<Rightarrow> 'f option \<times> 'f world" where
  \<comment> \<open>\<open>ret, frame = cap.read()\<close>: the result is \<open>Some frame\<close> when \<open>ret\<close> is true\<close>
  "read cap w =
     (if \<not> opened (captures w cap) then (None, w)
      else case stream (captures w cap) of
             [] \<Rightarrow> (None, w)
           | r # rs \<Rightarrow> (r, advance cap rs w))"

definition release :: "string \<Rightarrow> 'f world \<Rightarrow> 'f world" where
  "release cap w = w\<lparr>captures := (captures w)(cap := (captures w cap)\<lparr>opened := False\<rparr>)\<rparr>"

definition cv2_imwrite :: "string \<Rightarrow> 'f \<Rightarrow> 'f world \<Rightarrow> 'f world" where
  "cv2_imwrite filename frame w = w\<lparr>files := (files w)(filename \<mapsto> frame)\<rparr>"

definition print :: "string \<Rightarrow> 'f world \<Rightarrow> 'f world" where
  "print s w = w\<lparr>console := console w @ [s]\<rparr>"

subsection \<open>Strings: \<open>str\<close>, \<open>:04d\<close>, \<open>os.path.join\<close>\<close>

fun digits :: "nat \<Rightarrow> string" where
  "digits n =
     (if n < 10 then [''0123456789'' ! n]
      else digits (n div 10) @ [''0123456789'' ! (n mod 10)])"

declare digits.simps [simp del]

definition str :: "int \<Rightarrow> string" where
  \<comment> \<open>\<open>str(i)\<close>, also what \<open>{i}\<close> gives in an f-string\<close>
  "str i = (if i < 0 then ''-'' @ digits (nat (- i)) else digits (nat i))"

definition zfill :: "nat \<Rightarrow> string \<Rightarrow> string" where
  "zfill width s = replicate (width - length s) CHR ''0'' @ s"

definition fmt_04d :: "int \<Rightarrow> string" where
  \<comment> \<open>\<open>{i:04d}\<close>: zero-padded to four characters, the sign counted\<close>
  "fmt_04d i =
     (if i < 0 then ''-'' @ zfill 3 (digits (nat (- i))) else zfill 4 (digits (nat i)))"

definition os_path_join :: "string \<Rightarrow> string \<Rightarrow> string" where
  \<comment> \<open>\<open>posixpath.join\<close> of two components\<close>
  "os_path_join a b =
     (if b \<noteq> [] \<and> hd b = CHR ''/'' then b
      else if a = [] \<or> last a = CHR ''/'' then a @ b
      else a @ ''/'' @ b)"

definition frame_filename :: "string \<Rightarrow> int \<Rightarrow> string" where
  \<comment> \<open>\<open>os.path.join(output_dir, f"frame_{target_idx:04d}.png")\<close>\<close>
  "frame_filename output_dir target_idx =
     os_path_join output_dir (''frame_'' @ fmt_04d target_idx @ ''.png'')"

definition summary :: "int \<Rightarrow> string \<Rightarrow> string" where
  \<comment> \<open>\<open>f"Extracted {extracted} frames to '{output_dir}'"\<close>\<close>
  "summary extracted output_dir =
     ''Extracted '' @ str extracted @ '' frames to '' @ [CHR 0x27] @ output_dir @ [CHR 0x27]"

subsection \<open>Subscripting a list\<close>

definition py_index :: "'a list \<Rightarrow> int \<Rightarrow> error + 'a" where
  \<comment> \<open>\<open>xs[i]\<close>: from the front for \<open>i \<ge> 0\<close>, from the back for \<open>i < 0\<close>, else \<open>IndexError\<close>\<close>
  "py_index xs i =
     (if 0 \<le> i \<and> i < int (length xs) then Inr (xs ! nat i)
      else if i < 0 \<and> - int (length xs) \<le> i then Inr (xs ! nat (int (length xs) + i))
      else Inl IndexError)"

subsection \<open>The target indices\<close>

text \<open>
  \<open>i * total_frames / num_frames\<close> divides two integers into a float: the quotient
  rounded to the nearest binary64 number, ties to the even significand. For
  \<open>2^e \<le> x < 2^(e+1)\<close> the binary64 numbers around \<open>x\<close> are the multiples of
  \<open>2^(e - 52)\<close>; below \<open>2^(-1022)\<close> they are the multiples of \<open>2^(-1074)\<close>. The float
  is modelled by the rational number it stands for. The division is not modelled for a
  divisor 0 or a quotient of \<open>2^1024\<close> or more (Python raises there): the program
  divides by \<open>num_frames \<ge> 1\<close> only, and its quotients are below \<open>total_frames\<close>, the
  integer part of a float.
\<close>

definition round_half_even :: "rat \<Rightarrow> int" where
  "round_half_even y =
     (let n = \<lfloor>y\<rfloor>; r = y - of_int n
      in if r < 1 / 2 then n else if 1 / 2 < r then n + 1 else if even n then n else n + 1)"

definition binade :: "int \<Rightarrow> int \<Rightarrow> int" where
  \<comment> \<open>for \<open>a, b > 0\<close>: the \<open>e\<close> with \<open>2^e \<le> a / b < 2^(e+1)\<close>\<close>
  "binade a b =
     (let d = bitlen a - bitlen b
      in if (2::rat) powi d \<le> of_int a / of_int b then d else d - 1)"

definition py_truediv :: "int \<Rightarrow> int \<Rightarrow> rat" where
  \<comment> \<open>\<open>a / b\<close> for two \<open>int\<close>\<close>
  "py_truediv a b =
     (if a = 0 then 0
      else let x = of_int a / of_int b;
               e = max (binade \<bar>a\<bar> \<bar>b\<bar>) (- 1022);
               u = 2 powi (e - 52)
           in sgn x * of_int (round_half_even (\<bar>x\<bar> / u)) * u)"

definition math_floor :: "rat \<Rightarrow> int" where
  "math_floor x = \<lfloor>x\<rfloor>"

text \<open>
  \<open>[math.floor(i * total_frames / num_frames) for i in range(num_frames)]\<close>. For
  \<open>num_frames \<le> 0\<close> the range is empty and nothing is divided.
\<close>

definition frame_indices_of :: "int \<Rightarrow> int \<Rightarrow> int list" where
  "frame_indices_of total_frames num_frames =
     map (\<lambda>i. math_floor (py_truediv (i * total_frames) num_frames)) [0..num_frames - 1]"

subsection \<open>The scan loop\<close>

record locals =
  extracted :: int
  current_frame :: int
  target_idx :: int

text \<open>What one run of the loop body ends with.\<close>

datatype 'f ctl =
  Next locals "'f world"
| Break locals "'f world"
| Raise error locals "'f world"

definition loop_cond :: "string \<Rightarrow> int \<Rightarrow> locals \<Rightarrow> 'f world \<Rightarrow> bool" where
  \<comment> \<open>\<open>cap.isOpened() and target_idx < num_frames\<close>\<close>
  "loop_cond cap num_frames l w \<longleftrightarrow> isOpened cap w \<and> target_idx l < num_frames"

definition loop_body :: "string \<Rightarrow> string \<Rightarrow> int list \<Rightarrow> locals \<Rightarrow> 'f world \<Rightarrow> 'f ctl" where
  "loop_body cap output_dir frame_indices l w =
     (case read cap w of
        (None, w1) \<Rightarrow> Break l w1
      | (Some frame, w1) \<Rightarrow>
          (case py_index frame_indices (target_idx l) of
             Inl e \<Rightarrow> Raise e l w1
           | Inr t \<Rightarrow>
               if current_frame l = t then
                 let filename = frame_filename output_dir (target_idx l);
                     w2 = cv2_imwrite filename frame w1;
                     l1 = l\<lparr>extracted := extracted l + 1\<rparr>;
                     l2 = l1\<lparr>target_idx := target_idx l1 + 1\<rparr>
                 in Next (l2\<lparr>current_frame := current_frame l2 + 1\<rparr>) w2
               else Next (l\<lparr>current_frame := current_frame l + 1\<rparr>) w1))"

function scan ::
  "string \<Rightarrow> string \<Rightarrow> int list \<Rightarrow> int \<Rightarrow> locals \<Rightarrow> 'f world \<Rightarrow> error option \<times> locals \<times> 'f world"
where
  "scan cap output_dir frame_indices num_frames l w =
     (if loop_cond cap num_frames l w then
        (case loop_body cap output_dir frame_indices l w of
           Next l' w' \<Rightarrow> scan cap output_dir frame_indices num_frames l' w'
         | Break l' w' \<Rightarrow> (None, l', w')
         | Raise e l' w' \<Rightarrow> (Some e, l', w'))
      else (None, l, w))"
  by pat_completeness auto
termination
proof (relation "measure (\<lambda>(cap, output_dir, frame_indices, num_frames, l, w).
                    length (stream (captures w cap)))")
  show "wf (measure (\<lambda>(cap, output_dir, frame_indices, num_frames, l, w).
                    length (stream (captures w cap))))"
    by simp
next
  fix cap output_dir :: string and frame_indices :: "int list" and num_frames :: int
    and l l' :: locals and w w' :: "'f world"
  assume "loop_body cap output_dir frame_indices l w = Next l' w'"
  then have "length (stream (captures w' cap)) < length (stream (captures w cap))"
    by (auto simp: loop_body_def read_def advance_def cv2_imwrite_def Let_def
             split: if_splits list.splits option.splits sum.splits)
  then show "((cap, output_dir, frame_indices, num_frames, l', w'),
              (cap, output_dir, frame_indices, num_frames, l, w))
             \<in> measure (\<lambda>(cap, output_dir, frame_indices, num_frames, l, w).
                    length (stream (captures w cap)))"
    by simp
qed

declare scan.simps [simp del]

text \<open>
  The states of the loop: the state the loop is entered with, and every state that one
  run of the body leads to from a state in which the loop condition holds.
\<close>

inductive iterates ::
  "string \<Rightarrow> string \<Rightarrow> int list \<Rightarrow> int \<Rightarrow> locals \<Rightarrow> 'f world \<Rightarrow> locals \<Rightarrow> 'f world \<Rightarrow> bool"
  for cap output_dir frame_indices num_frames l0 w0
where
  entry: "iterates cap output_dir frame_indices num_frames l0 w0 l0 w0"
| next_iter:
    "iterates cap output_dir frame_indices num_frames l0 w0 l w \<Longrightarrow>
     loop_cond cap num_frames l w \<Longrightarrow>
     loop_body cap output_dir frame_indices l w = Next l' w' \<Longrightarrow>
     iterates cap output_dir frame_indices num_frames l0 w0 l' w'"
| break_iter:
    "iterates cap output_dir frame_indices num_frames l0 w0 l w \<Longrightarrow>
     loop_cond cap num_frames l w \<Longrightarrow>
     loop_body cap output_dir frame_indices l w = Break l' w' \<Longrightarrow>
     iterates cap output_dir frame_indices num_frames l0 w0 l' w'"

subsection \<open>\<open>extract_frames\<close>\<close>

definition init_locals :: locals where
  "init_locals = \<lparr>extracted = 0, current_frame = 0, target_idx = 0\<rparr>"

definition extract_frames ::
  "string \<Rightarrow> string \<Rightarrow> int \<Rightarrow> 'f world \<Rightarrow> error option \<times> 'f world"
where
  "extract_frames video_path output_dir num_frames w0 =
     (case os_makedirs output_dir w0 of
        Inl e \<Rightarrow> (Some e, w0)
      | Inr w1 \<Rightarrow>
          let cap = video_path
          in if \<not> isOpened cap w1 then
               (Some (RuntimeError (''Cannot open video: '' @ video_path)), w1)
             else
               let total_frames = get_frame_count cap w1
               in if total_frames \<le> 0 then
                    (Some (RuntimeError ''Could not determine total frame count''), w1)
                  else
                    let frame_indices = frame_indices_of total_frames num_frames
                    in case scan cap output_dir frame_indices num_frames init_locals w1 of
                         (Some e, l, w2) \<Rightarrow> (Some e, w2)
                       | (None, l, w2) \<Rightarrow>
                           let w3 = release cap w2
                           in (None, print (summary (extracted l) output_dir) w3))"

subsection \<open>A world with one video\<close>

text \<open>
  The world used for concrete runs: \<open>path\<close> opens as the capture \<open>c\<close>, no other path
  opens, there are no directories, files or console lines yet, and the operating
  system refuses no directory.
\<close>

definition world_with :: "string \<Rightarrow> 'f VideoCapture \<Rightarrow> 'f world" where
  "world_with path c =
     \<lparr>captures = (\<lambda>p. if p = path then c
                       else \<lparr>opened = False, frame_count = 0, stream = []\<rparr>),
      dirs = {}, files = Map.empty, refuses = (\<lambda>p. None), console = []\<rparr>"

text \<open>A capture that opens, reports \<open>T\<close> frames and yields the frames \<open>fs\<close>.\<close>

definition clip :: "int \<Rightarrow> 'f list \<Rightarrow> 'f VideoCapture" where
  "clip T fs = \<lparr>opened = True, frame_count = T, stream = map Some fs\<rparr>"

subsection \<open>Reading a decimal numeral\<close>

text \<open>The number that a string of decimal digits stands for; it reads file names back.\<close>

definition decimal_value :: "string \<Rightarrow> nat" where
  "decimal_value s = foldl (\<lambda>v c. 10 * v + (of_char c - 48)) 0 s"

section \<open>Properties\<close>

subsection \<open>Division into a float\<close>

lemma round_half_even_bounds:
  "\<lfloor>y\<rfloor> \<le> round_half_even y \<and> round_half_even y \<le> \<lfloor>y\<rfloor> + 1"
  by (simp add: round_half_even_def Let_def)

lemma round_half_even_ge_int:
  assumes "of_int k \<le> y"
  shows "k \<le> round_half_even y"
proof -
  from assms have "k \<le> \<lfloor>y\<rfloor>" by (simp add: le_floor_iff)
  with round_half_even_bounds [of y] show ?thesis by linarith
qed



lemma round_half_even_upper: "of_int (round_half_even y) \<le> y + 1 / 2"
proof -
  have "of_int \<lfloor>y\<rfloor> \<le> y" by simp
  moreover have "round_half_even y = \<lfloor>y\<rfloor> + 1 \<longrightarrow> 1 / 2 \<le> y - of_int \<lfloor>y\<rfloor>"
    by (simp add: round_half_even_def Let_def)
  moreover have "round_half_even y = \<lfloor>y\<rfloor> \<or> round_half_even y = \<lfloor>y\<rfloor> + 1"
    by (simp add: round_half_even_def Let_def)
  ultimately show ?thesis by (elim disjE) (simp_all, linarith)
qed

lemma bitlen_powi:
  assumes "0 < a"
  shows "(2::rat) powi (bitlen a - 1) \<le> of_int a" and "of_int a < (2::rat) powi (bitlen a)"
proof -
  from assms have pos: "1 \<le> bitlen a" by (auto simp: bitlen_alt_def)
  from bitlen_bounds [OF assms]
  have lo: "2 ^ nat (bitlen a - 1) \<le> a" and hi: "a < 2 ^ nat (bitlen a)" by simp_all
  from lo have "(of_int (2 ^ nat (bitlen a - 1)) :: rat) \<le> of_int a" by (simp only: of_int_le_iff)
  moreover have "(2::rat) powi (bitlen a - 1) = 2 ^ nat (bitlen a - 1)"
    using pos by (simp add: power_int_def)
  ultimately show "(2::rat) powi (bitlen a - 1) \<le> of_int a" by simp
  from hi have "(of_int a :: rat) < of_int (2 ^ nat (bitlen a))" by (simp only: of_int_less_iff)
  moreover have "(2::rat) powi (bitlen a) = 2 ^ nat (bitlen a)"
    using pos by (simp add: power_int_def)
  ultimately show "of_int a < (2::rat) powi (bitlen a)" by simp
qed

lemma binade_bounds:
  assumes "0 < a" and "0 < b"
  shows "(2::rat) powi (binade a b) \<le> of_int a / of_int b"
    and "of_int a / of_int b < (2::rat) powi (binade a b + 1)"
proof -
  let ?x = "of_int a / of_int b :: rat"
  let ?d = "bitlen a - bitlen b"
  from assms have b: "(0::rat) < of_int b" by simp
  have hi: "?x < 2 powi (?d + 1)"
  proof -
    have "of_int a < (2::rat) powi (bitlen a)" using assms(1) by (rule bitlen_powi)
    also have "\<dots> = 2 powi (?d + 1) * 2 powi (bitlen b - 1)"
      by (simp flip: power_int_add)
    also have "\<dots> \<le> 2 powi (?d + 1) * of_int b"
      using bitlen_powi(1) [OF assms(2)] by (intro mult_left_mono) simp_all
    finally show ?thesis using b by (simp add: pos_divide_less_eq)
  qed
  have lo: "2 powi (?d - 1) < ?x"
  proof -
    have "2 powi (?d - 1) * of_int b < (2::rat) powi (?d - 1) * 2 powi (bitlen b)"
      using bitlen_powi(2) [OF assms(2)] by (intro mult_strict_left_mono) simp_all
    also have "\<dots> = 2 powi (bitlen a - 1)" by (simp flip: power_int_add)
    also have "\<dots> \<le> of_int a" using assms(1) by (rule bitlen_powi)
    finally show ?thesis using b by (simp add: pos_less_divide_eq)
  qed
  show "(2::rat) powi (binade a b) \<le> ?x"
    using lo by (simp add: binade_def Let_def)
  show "?x < (2::rat) powi (binade a b + 1)"
    using hi by (auto simp: binade_def Let_def not_le)
qed

lemma py_truediv_zero [simp]: "py_truediv 0 b = 0"
  by (simp add: py_truediv_def)

lemma py_truediv_pos:
  assumes "0 < a" and "0 < b"
  shows "py_truediv a b =
           of_int (round_half_even
             (of_int a / of_int b / 2 powi (max (binade a b) (- 1022) - 52))) *
           2 powi (max (binade a b) (- 1022) - 52)"
proof -
  from assms have "(0::rat) < of_int a / of_int b" by simp
  with assms show ?thesis by (simp add: py_truediv_def Let_def)
qed


text \<open>Below \<open>2^53\<close> the floor of the rounded quotient is the floor of the exact one.\<close>

lemma math_floor_py_truediv_exact:
  assumes "0 \<le> a" and "a < 2 ^ 53" and "0 < b"
  shows "math_floor (py_truediv a b) = a div b"
proof (cases "a = 0")
  case True
  then show ?thesis by (simp add: math_floor_def)
next
  case False
  with assms have a: "0 < a" by simp
  let ?x = "of_int a / of_int b :: rat"
  let ?e = "max (binade a b) (- 1022)"
  let ?u = "(2::rat) powi (?e - 52)"
  let ?n = "a div b"
  let ?r = "of_int (round_half_even (?x / ?u)) * ?u"
  have r: "py_truediv a b = ?r" using a assms(3) by (rule py_truediv_pos)
  have u: "0 < ?u" by (simp add: zero_less_power_int)
  have brat: "(0::rat) < of_int b" using assms by simp
  have fl: "\<lfloor>?x\<rfloor> = ?n" by (rule floor_divide_of_int_eq)
  have xlt: "?x < 2 ^ 53"
  proof -
    have "of_int a \<le> (of_int a :: rat) * of_int b"
      using a assms(3) by (simp add: mult_le_cancel_left1 flip: of_int_mult)
    then have "?x \<le> of_int a" using brat by (simp add: pos_divide_le_eq)
    also have "(of_int a :: rat) < of_int (2 ^ 53)" using assms(2) by (simp only: of_int_less_iff)
    finally show ?thesis by simp
  qed
  have e52: "?e \<le> 52"
  proof -
    have "binade a b \<le> 52"
    proof (rule ccontr)
      assume "\<not> binade a b \<le> 52"
      then have "(2::rat) powi 53 \<le> 2 powi (binade a b)" by (intro power_int_increasing) simp_all
      also have "\<dots> \<le> ?x" using a assms(3) by (rule binade_bounds)
      finally show False using xlt by simp
    qed
    then show ?thesis by simp
  qed
  have lower: "of_int ?n \<le> ?r"
  proof -
    define K :: rat where "K = 2 ^ nat (52 - ?e)"
    define m :: rat where "m = of_int (round_half_even (?x / ?u))"
    have inv: "1 / ?u = K"
      using e52 by (simp add: K_def power_int_def field_simps)
    then have Ku: "K * ?u = 1" using u by (simp add: field_simps)
    have K0: "0 \<le> K" by (simp add: K_def)
    have "of_int ?n \<le> ?x" using fl by (metis of_int_floor_le)
    then have "of_int ?n * K \<le> ?x * K" using K0 by (rule mult_right_mono)
    also have "\<dots> = ?x * (1 / ?u)" by (simp only: inv)
    also have "\<dots> = ?x / ?u" by simp
    finally have "(of_int (?n * 2 ^ nat (52 - ?e)) :: rat) \<le> ?x / ?u" by (simp add: K_def)
    then have "?n * 2 ^ nat (52 - ?e) \<le> round_half_even (?x / ?u)"
      by (rule round_half_even_ge_int)
    then have "(of_int (?n * 2 ^ nat (52 - ?e)) :: rat) \<le> m"
      unfolding m_def by (simp only: of_int_le_iff)
    then have "of_int ?n * K \<le> m" by (simp add: K_def)
    then have "of_int ?n * K * ?u \<le> m * ?u" using u by (intro mult_right_mono) simp_all
    moreover have "of_int ?n * K * ?u = of_int ?n * (K * ?u)" by (simp only: mult.assoc)
    ultimately have "of_int ?n \<le> m * ?u" by (simp only: Ku mult_1_right)
    then show ?thesis by (simp only: m_def)
  qed
  have rle: "?r \<le> ?x + ?u / 2"
  proof -
    have "?r \<le> (?x / ?u + 1 / 2) * ?u"
      using u round_half_even_upper [of "?x / ?u"] by (intro mult_right_mono) simp_all
    also have "\<dots> = ?x + ?u / 2" using u by (simp add: field_simps)
    finally show ?thesis .
  qed
  have upper: "?r < of_int ?n + 1"
  proof (cases "- 1022 \<le> binade a b")
    case True
    then have "?u = 2 powi (binade a b + (- 52))" by (simp add: max_def)
    also have "\<dots> = 2 powi (binade a b) * 2 powi (- 52)" by (rule power_int_add) simp
    also have "\<dots> \<le> ?x * 2 powi (- 52)"
      using binade_bounds(1) [OF a assms(3)] by (intro mult_right_mono) simp_all
    finally have "?u * of_int b \<le> of_int a * 2 powi (- 52)"
      using brat by (simp add: field_simps)
    also have "\<dots> < 2 ^ 53 * 2 powi (- 52)"
    proof -
      have "(of_int a :: rat) < of_int (2 ^ 53)" using assms(2) by (simp only: of_int_less_iff)
      then show ?thesis by simp
    qed
    also have "\<dots> = (2::rat)" by simp
    finally have ub: "?u * of_int b < 2" .
    have "a < (?n + 1) * b"
    proof -
      have "?n * b + a mod b = a" by simp
      moreover have "a mod b < b" using assms(3) by simp
      ultimately have "a < ?n * b + b" by linarith
      then show ?thesis by (simp add: algebra_simps)
    qed
    then have "a + 1 \<le> (?n + 1) * b" by simp
    then have "(of_int (a + 1) :: rat) \<le> of_int ((?n + 1) * b)" by (simp only: of_int_le_iff)
    then have "of_int a + 1 \<le> (of_int ?n + 1) * (of_int b :: rat)" by simp
    then have "?x + 1 / of_int b \<le> of_int ?n + 1"
      using brat by (simp add: field_simps)
    moreover from ub brat have "?u / 2 < 1 / of_int b" by (simp add: field_simps)
    ultimately show ?thesis using rle by linarith
  next
    case False
    then have lt: "binade a b + 1 \<le> - 1022" and e: "?e = - 1022" by simp_all
    have "?x < 2 powi (binade a b + 1)" using a assms(3) by (rule binade_bounds)
    also have "\<dots> \<le> 2 powi (- 1)" using lt by (intro power_int_increasing) simp_all
    finally have x: "?x < 1 / 2" by simp
    have "?u \<le> 2 powi (- 1)" unfolding e by (intro power_int_increasing) simp_all
    then have "?u \<le> 1 / 2" by simp
    moreover have "0 \<le> ?x" using a brat by simp
    then have "0 \<le> ?n" using fl by (metis zero_le_floor)
    ultimately show ?thesis using rle x by simp
  qed
  from lower upper have "\<lfloor>?r\<rfloor> = ?n" by (intro floor_unique) simp_all
  with r show ?thesis by (simp add: math_floor_def)
qed




subsection \<open>The target indices\<close>


lemma length_frame_indices_of [simp]:
  "length (frame_indices_of T N) = nat N"
  by (simp add: frame_indices_of_def)

lemma nth_frame_indices_of:
  "i < nat N \<Longrightarrow> frame_indices_of T N ! i = math_floor (py_truediv (int i * T) N)"
  by (simp add: frame_indices_of_def)



text \<open>While the largest numerator stays below \<open>2^53\<close> every entry is the exact floor.\<close>

lemma nth_frame_indices_of_exact:
  assumes "0 \<le> T" "0 < N" "(N - 1) * T < 2 ^ 53" "i < nat N"
  shows "frame_indices_of T N ! i = (int i * T) div N"
proof -
  from assms have "int i \<le> N - 1" by linarith
  then have "int i * T \<le> (N - 1) * T" using assms(1) by (rule mult_right_mono)
  with assms have "int i * T < 2 ^ 53" by linarith
  moreover have "0 \<le> int i * T" using assms by simp
  ultimately have "math_floor (py_truediv (int i * T) N) = (int i * T) div N"
    using assms(2) by (intro math_floor_py_truediv_exact)
  with assms show ?thesis by (simp add: nth_frame_indices_of)
qed



lemma frame_indices_of_second:
  assumes "0 < T" "T < N" "T < 2 ^ 53"
  shows "frame_indices_of T N ! 0 = 0" "frame_indices_of T N ! Suc 0 = 0"
proof -
  show "frame_indices_of T N ! 0 = 0"
    using assms by (simp add: nth_frame_indices_of math_floor_def)
  have "math_floor (py_truediv T N) = T div N"
    using assms by (intro math_floor_py_truediv_exact) simp_all
  with assms show "frame_indices_of T N ! Suc 0 = 0"
    by (simp add: nth_frame_indices_of)
qed

subsection \<open>The library calls\<close>

lemma advance_simps [simp]:
  "stream (captures (advance cap rs w) cap) = rs"
  "opened (captures (advance cap rs w) p) = opened (captures w p)"
  "frame_count (captures (advance cap rs w) p) = frame_count (captures w p)"
  "p \<noteq> cap \<Longrightarrow> captures (advance cap rs w) p = captures w p"
  "dirs (advance cap rs w) = dirs w"
  "files (advance cap rs w) = files w"
  "console (advance cap rs w) = console w"
  by (simp_all add: advance_def)

lemma cv2_imwrite_simps [simp]:
  "captures (cv2_imwrite fn f w) = captures w"
  "dirs (cv2_imwrite fn f w) = dirs w"
  "files (cv2_imwrite fn f w) = (files w)(fn \<mapsto> f)"
  "console (cv2_imwrite fn f w) = console w"
  by (simp_all add: cv2_imwrite_def)

lemma os_makedirs_Inr:
  assumes "os_makedirs p w = Inr w1"
  shows "captures w1 = captures w" and "dirs w1 = insert p (dirs w)"
    and "files w1 = files w" and "console w1 = console w"
  using assms by (auto simp: os_makedirs_def split: if_splits option.splits)

lemma release_simps [simp]:
  "opened (captures (release cap w) cap) = False"
  "stream (captures (release cap w) p) = stream (captures w p)"
  "frame_count (captures (release cap w) p) = frame_count (captures w p)"
  "p \<noteq> cap \<Longrightarrow> captures (release cap w) p = captures w p"
  "dirs (release cap w) = dirs w"
  "files (release cap w) = files w"
  "console (release cap w) = console w"
  by (simp_all add: release_def)

lemma print_simps [simp]:
  "captures (print s w) = captures w"
  "dirs (print s w) = dirs w"
  "files (print s w) = files w"
  "console (print s w) = console w @ [s]"
  by (simp_all add: print_def)

lemma loop_cond_advance [simp]:
  "loop_cond cap n l (advance cap rs w) = loop_cond cap n l w"
  by (simp add: loop_cond_def isOpened_def)

lemma loop_cond_imwrite [simp]:
  "loop_cond cap n l (cv2_imwrite fn f w) = loop_cond cap n l w"
  by (simp add: loop_cond_def isOpened_def)

lemma py_index_in_range:
  "0 \<le> i \<Longrightarrow> i < int (length xs) \<Longrightarrow> py_index xs i = Inr (xs ! nat i)"
  by (simp add: py_index_def)

text \<open>One run of the body, by what the read returns and whether the frame is a target.\<close>

lemma loop_body_no_frame:
  "stream (captures w cap) = [] \<Longrightarrow> loop_body cap od fi l w = Break l w"
  by (simp add: loop_body_def read_def)

lemma loop_body_failed_read:
  "loop_cond cap n l w \<Longrightarrow> stream (captures w cap) = None # rs \<Longrightarrow>
   loop_body cap od fi l w = Break l (advance cap rs w)"
  by (simp add: loop_body_def read_def loop_cond_def isOpened_def)

lemma loop_body_hit:
  "loop_cond cap n l w \<Longrightarrow> stream (captures w cap) = Some f # rs \<Longrightarrow>
   py_index fi (target_idx l) = Inr (current_frame l) \<Longrightarrow>
   loop_body cap od fi l w =
     Next (l\<lparr>extracted := extracted l + 1, target_idx := target_idx l + 1,
             current_frame := current_frame l + 1\<rparr>)
          (cv2_imwrite (frame_filename od (target_idx l)) f (advance cap rs w))"
  by (simp add: loop_body_def read_def loop_cond_def isOpened_def)

lemma loop_body_miss:
  "loop_cond cap n l w \<Longrightarrow> stream (captures w cap) = Some f # rs \<Longrightarrow>
   py_index fi (target_idx l) = Inr t \<Longrightarrow> current_frame l \<noteq> t \<Longrightarrow>
   loop_body cap od fi l w =
     Next (l\<lparr>current_frame := current_frame l + 1\<rparr>) (advance cap rs w)"
  by (simp add: loop_body_def read_def loop_cond_def isOpened_def)

lemma loop_body_index_error:
  "loop_cond cap n l w \<Longrightarrow> stream (captures w cap) = Some f # rs \<Longrightarrow>
   py_index fi (target_idx l) = Inl e \<Longrightarrow>
   loop_body cap od fi l w = Raise e l (advance cap rs w)"
  by (simp add: loop_body_def read_def loop_cond_def isOpened_def)

lemma scan_exit:
  "\<not> loop_cond cap n l w \<Longrightarrow> scan cap od fi n l w = (None, l, w)"
  by (simp add: scan.simps)

lemma scan_no_frame:
  "stream (captures w cap) = [] \<Longrightarrow> scan cap od fi n l w = (None, l, w)"
  by (simp add: scan.simps [of cap od fi n l w] loop_body_no_frame)

lemma scan_failed_read:
  "loop_cond cap n l w \<Longrightarrow> stream (captures w cap) = None # rs \<Longrightarrow>
   scan cap od fi n l w = (None, l, advance cap rs w)"
  by (simp add: scan.simps [of cap od fi n l w] loop_body_failed_read)

lemma scan_hit:
  "loop_cond cap n l w \<Longrightarrow> stream (captures w cap) = Some f # rs \<Longrightarrow>
   py_index fi (target_idx l) = Inr (current_frame l) \<Longrightarrow>
   scan cap od fi n l w =
     scan cap od fi n
       (l\<lparr>extracted := extracted l + 1, target_idx := target_idx l + 1,
          current_frame := current_frame l + 1\<rparr>)
       (cv2_imwrite (frame_filename od (target_idx l)) f (advance cap rs w))"
  by (simp add: scan.simps [of cap od fi n l w] loop_body_hit)

lemma scan_miss:
  "loop_cond cap n l w \<Longrightarrow> stream (captures w cap) = Some f # rs \<Longrightarrow>
   py_index fi (target_idx l) = Inr t \<Longrightarrow> current_frame l \<noteq> t \<Longrightarrow>
   scan cap od fi n l w =
     scan cap od fi n (l\<lparr>current_frame := current_frame l + 1\<rparr>) (advance cap rs w)"
  by (simp add: scan.simps [of cap od fi n l w] loop_body_miss)

lemma scan_index_error:
  "loop_cond cap n l w \<Longrightarrow> stream (captures w cap) = Some f # rs \<Longrightarrow>
   py_index fi (target_idx l) = Inl e \<Longrightarrow>
   scan cap od fi n l w = (Some e, l, advance cap rs w)"
  by (simp add: scan.simps [of cap od fi n l w] loop_body_index_error)

subsection \<open>The scan loop\<close>

text \<open>What the loop leaves alone.\<close>

lemma scan_frame:
  assumes "stream (captures w cap) = rs"
  shows "\<exists>e l' w'. scan cap od fi n l w = (e, l', w') \<and>
           dirs w' = dirs w \<and> console w' = console w \<and>
           opened (captures w' cap) = opened (captures w cap) \<and>
           frame_count (captures w' cap) = frame_count (captures w cap) \<and>
           (\<forall>p. p \<noteq> cap \<longrightarrow> captures w' p = captures w p)"
  using assms
proof (induction rs arbitrary: l w)
  case Nil
  then show ?case by (simp add: scan_no_frame)
next
  case (Cons r rs)
  show ?case
  proof (cases "loop_cond cap n l w")
    case False
    then show ?thesis by (simp add: scan_exit)
  next
    case cond: True
    show ?thesis
    proof (cases r)
      case None
      with cond Cons.prems show ?thesis by (simp add: scan_failed_read)
    next
      case (Some f)
      with Cons.prems have s: "stream (captures w cap) = Some f # rs" by simp
      show ?thesis
      proof (cases "py_index fi (target_idx l)")
        case (Inl e)
        with cond s show ?thesis by (simp add: scan_index_error)
      next
        case (Inr t)
        show ?thesis
        proof (cases "current_frame l = t")
          case True
          with Inr have "py_index fi (target_idx l) = Inr (current_frame l)" by simp
          from scan_hit [OF cond s this, of od]
            Cons.IH [of "cv2_imwrite (frame_filename od (target_idx l)) f (advance cap rs w)"
              "l\<lparr>extracted := extracted l + 1, target_idx := target_idx l + 1,
                  current_frame := current_frame l + 1\<rparr>"]
          show ?thesis by simp
        next
          case False
          from scan_miss [OF cond s Inr False, of od]
            Cons.IH [of "advance cap rs w" "l\<lparr>current_frame := current_frame l + 1\<rparr>"]
          show ?thesis by simp
        qed
      qed
    qed
  qed
qed

text \<open>The counters: \<open>extracted\<close> and \<open>target_idx\<close> move together, and the subscript is in range.\<close>

lemma scan_counters:
  assumes "stream (captures w cap) = rs"
    and "extracted l = target_idx l" and "0 \<le> target_idx l"
    and "n \<le> int (length fi)"
  shows "\<exists>l' w'. scan cap od fi n l w = (None, l', w') \<and>
           extracted l' = target_idx l' \<and> target_idx l \<le> target_idx l' \<and>
           (target_idx l' \<le> n \<or> target_idx l' = target_idx l)"
  using assms
proof (induction rs arbitrary: l w)
  case Nil
  then show ?case by (simp add: scan_no_frame)
next
  case (Cons r rs)
  show ?case
  proof (cases "loop_cond cap n l w")
    case False
    with Cons.prems show ?thesis by (simp add: scan_exit)
  next
    case cond: True
    then have lt: "target_idx l < n" by (simp add: loop_cond_def)
    show ?thesis
    proof (cases r)
      case None
      with cond Cons.prems show ?thesis by (simp add: scan_failed_read)
    next
      case (Some f)
      with Cons.prems have s: "stream (captures w cap) = Some f # rs" by simp
      from lt Cons.prems have ix: "py_index fi (target_idx l) = Inr (fi ! nat (target_idx l))"
        by (intro py_index_in_range) auto
      show ?thesis
      proof (cases "current_frame l = fi ! nat (target_idx l)")
        case True
        with ix have "py_index fi (target_idx l) = Inr (current_frame l)" by simp
        from scan_hit [OF cond s this, of od]
          Cons.IH [of "cv2_imwrite (frame_filename od (target_idx l)) f (advance cap rs w)"
            "l\<lparr>extracted := extracted l + 1, target_idx := target_idx l + 1,
                current_frame := current_frame l + 1\<rparr>"]
          Cons.prems lt
        show ?thesis by auto
      next
        case False
        from scan_miss [OF cond s ix False, of od]
          Cons.IH [of "advance cap rs w" "l\<lparr>current_frame := current_frame l + 1\<rparr>"]
          Cons.prems
        show ?thesis by auto
      qed
    qed
  qed
qed

text \<open>A target that the scan has passed is never matched.\<close>

lemma scan_passed:
  assumes "stream (captures w cap) = rs"
    and "0 \<le> target_idx l" and "target_idx l < int (length fi)"
    and "fi ! nat (target_idx l) < current_frame l"
  shows "\<exists>l' w'. scan cap od fi n l w = (None, l', w') \<and>
           extracted l' = extracted l \<and> target_idx l' = target_idx l \<and>
           files w' = files w"
  using assms
proof (induction rs arbitrary: l w)
  case Nil
  then show ?case by (simp add: scan_no_frame)
next
  case (Cons r rs)
  show ?case
  proof (cases "loop_cond cap n l w")
    case False
    then show ?thesis by (simp add: scan_exit)
  next
    case cond: True
    show ?thesis
    proof (cases r)
      case None
      with cond Cons.prems show ?thesis by (simp add: scan_failed_read)
    next
      case (Some f)
      with Cons.prems have s: "stream (captures w cap) = Some f # rs" by simp
      from Cons.prems have ix: "py_index fi (target_idx l) = Inr (fi ! nat (target_idx l))"
        by (intro py_index_in_range) auto
      from Cons.prems have ne: "current_frame l \<noteq> fi ! nat (target_idx l)" by simp
      from scan_miss [OF cond s ix ne, of od]
        Cons.IH [of "advance cap rs w" "l\<lparr>current_frame := current_frame l + 1\<rparr>"]
        Cons.prems
      show ?thesis by auto
    qed
  qed
qed


text \<open>A read that fails ends the scan as the end of the stream does.\<close>

lemma scan_failure_is_end:
  assumes "stream (captures w cap) = rs"
    and "stream (captures v cap) = takeWhile (\<lambda>r. r \<noteq> None) rs"
    and "opened (captures v cap) = opened (captures w cap)"
    and "files v = files w"
  shows "\<exists>e l' w' v'. scan cap od fi n l w = (e, l', w') \<and> scan cap od fi n l v = (e, l', v') \<and>
           files v' = files w'"
  using assms
proof (induction rs arbitrary: l w v)
  case Nil
  then show ?case by (simp add: scan_no_frame)
next
  case (Cons r rs)
  have c: "loop_cond cap n l v = loop_cond cap n l w"
    using Cons.prems by (simp add: loop_cond_def isOpened_def)
  show ?case
  proof (cases "loop_cond cap n l w")
    case False
    with c Cons.prems show ?thesis by (simp add: scan_exit)
  next
    case cond: True
    with c have cond': "loop_cond cap n l v" by simp
    show ?thesis
    proof (cases r)
      case None
      with cond Cons.prems show ?thesis by (simp add: scan_failed_read scan_no_frame)
    next
      case (Some f)
      with Cons.prems have s: "stream (captures w cap) = Some f # rs"
        and s': "stream (captures v cap) = Some f # takeWhile (\<lambda>r. r \<noteq> None) rs" by simp_all
      show ?thesis
      proof (cases "py_index fi (target_idx l)")
        case (Inl e)
        with cond cond' s s' show ?thesis by (simp add: scan_index_error Cons.prems)
      next
        case (Inr t)
        show ?thesis
        proof (cases "current_frame l = t")
          case True
          with Inr have hit: "py_index fi (target_idx l) = Inr (current_frame l)" by simp
          from scan_hit [OF cond s hit, of od] scan_hit [OF cond' s' hit, of od]
            Cons.IH [of "cv2_imwrite (frame_filename od (target_idx l)) f (advance cap rs w)"
              "cv2_imwrite (frame_filename od (target_idx l)) f
                 (advance cap (takeWhile (\<lambda>r. r \<noteq> None) rs) v)"
              "l\<lparr>extracted := extracted l + 1, target_idx := target_idx l + 1,
                  current_frame := current_frame l + 1\<rparr>"]
            Cons.prems
          show ?thesis by simp
        next
          case False
          from scan_miss [OF cond s Inr False, of od] scan_miss [OF cond' s' Inr False, of od]
            Cons.IH [of "advance cap rs w" "advance cap (takeWhile (\<lambda>r. r \<noteq> None) rs) v"
              "l\<lparr>current_frame := current_frame l + 1\<rparr>"]
            Cons.prems
          show ?thesis by simp
        qed
      qed
    qed
  qed
qed

text \<open>
  The files the scan writes: for each target it consumes, the frame at that position of
  the video, under the name of the target's number. \<open>fs\<close> are the frames of the video
  from its start; the stream still holds those from \<open>current_frame\<close> on.
\<close>

lemma scan_files:
  assumes "stream (captures w cap) = rs"
    and "takeWhile (\<lambda>r. r \<noteq> None) rs = map Some (drop (nat (current_frame l)) fs)"
    and "0 \<le> current_frame l" and "0 \<le> target_idx l" and "n \<le> int (length fi)"
  shows "\<exists>l' w'. scan cap od fi n l w = (None, l', w') \<and> target_idx l \<le> target_idx l' \<and>
           files w' = foldl (\<lambda>m k. m(frame_filename od (int k) \<mapsto> fs ! nat (fi ! k)))
                        (files w) [nat (target_idx l)..<nat (target_idx l')]"
  using assms
proof (induction rs arbitrary: l w)
  case Nil
  then show ?case by (simp add: scan_no_frame)
next
  case (Cons r rs)
  let ?F = "\<lambda>m k. m(frame_filename od (int k) \<mapsto> fs ! nat (fi ! k))"
  show ?case
  proof (cases "loop_cond cap n l w")
    case False
    then show ?thesis by (simp add: scan_exit)
  next
    case cond: True
    then have lt: "target_idx l < n" by (simp add: loop_cond_def)
    show ?thesis
    proof (cases r)
      case None
      with cond Cons.prems show ?thesis by (simp add: scan_failed_read)
    next
      case (Some f)
      with Cons.prems have s: "stream (captures w cap) = Some f # rs" by simp
      let ?c = "nat (current_frame l)"
      from Some Cons.prems(2)
      have d: "map Some (drop ?c fs) = Some f # takeWhile (\<lambda>r. r \<noteq> None) rs" by simp
      then have ne: "drop ?c fs \<noteq> []" by auto
      then have c: "?c < length fs" by simp
      then have "drop ?c fs = fs ! ?c # drop (Suc ?c) fs" by (simp add: Cons_nth_drop_Suc)
      with d have f: "fs ! ?c = f"
        and tl: "takeWhile (\<lambda>r. r \<noteq> None) rs = map Some (drop (Suc ?c) fs)" by simp_all
      from Cons.prems have suc: "nat (current_frame l + 1) = Suc ?c" by simp
      from lt Cons.prems have ix: "py_index fi (target_idx l) = Inr (fi ! nat (target_idx l))"
        by (intro py_index_in_range) auto
      show ?thesis
      proof (cases "current_frame l = fi ! nat (target_idx l)")
        case True
        with ix have hit: "py_index fi (target_idx l) = Inr (current_frame l)" by simp
        let ?l = "l\<lparr>extracted := extracted l + 1, target_idx := target_idx l + 1,
                       current_frame := current_frame l + 1\<rparr>"
        let ?w = "cv2_imwrite (frame_filename od (target_idx l)) f (advance cap rs w)"
        have "\<exists>l' w'. scan cap od fi n ?l ?w = (None, l', w') \<and> target_idx ?l \<le> target_idx l' \<and>
                files w' = foldl ?F (files ?w) [nat (target_idx ?l)..<nat (target_idx l')]"
          using Cons.prems tl suc by (intro Cons.IH) simp_all
        then obtain l' w' where r': "scan cap od fi n ?l ?w = (None, l', w')"
          and le: "target_idx l + 1 \<le> target_idx l'"
          and fw: "files w' = foldl ?F (files ?w) [nat (target_idx l + 1)..<nat (target_idx l')]"
          by auto
        from Cons.prems le have up: "[nat (target_idx l)..<nat (target_idx l')] =
            nat (target_idx l) # [nat (target_idx l + 1)..<nat (target_idx l')]"
          by (simp add: upt_conv_Cons nat_add_distrib)
        have "files ?w = ?F (files w) (nat (target_idx l))"
          using Cons.prems True f by simp
        with fw up have fin: "files w' = foldl ?F (files w) [nat (target_idx l)..<nat (target_idx l')]"
          by simp
        have res: "scan cap od fi n l w = (None, l', w')"
          using scan_hit [OF cond s hit, of od] r' by simp
        from le have le': "target_idx l \<le> target_idx l'" by simp
        show ?thesis
        proof (intro exI conjI)
          show "scan cap od fi n l w = (None, l', w')" by (rule res)
          show "target_idx l \<le> target_idx l'" by (rule le')
          show "files w' = foldl ?F (files w) [nat (target_idx l)..<nat (target_idx l')]"
            by (rule fin)
        qed
      next
        case False
        let ?l = "l\<lparr>current_frame := current_frame l + 1\<rparr>"
        have "\<exists>l' w'. scan cap od fi n ?l (advance cap rs w) = (None, l', w') \<and>
                target_idx ?l \<le> target_idx l' \<and>
                files w' = foldl ?F (files (advance cap rs w))
                             [nat (target_idx ?l)..<nat (target_idx l')]"
          using Cons.prems tl suc by (intro Cons.IH) simp_all
        then obtain l' w'
          where r': "scan cap od fi n ?l (advance cap rs w) = (None, l', w')"
            and le': "target_idx l \<le> target_idx l'"
            and fin: "files w' = foldl ?F (files w) [nat (target_idx l)..<nat (target_idx l')]"
          by auto
        have res: "scan cap od fi n l w = (None, l', w')"
          using scan_miss [OF cond s ix False, of od] r' by simp
        show ?thesis
        proof (intro exI conjI)
          show "scan cap od fi n l w = (None, l', w')" by (rule res)
          show "target_idx l \<le> target_idx l'" by (rule le')
          show "files w' = foldl ?F (files w) [nat (target_idx l)..<nat (target_idx l')]"
            by (rule fin)
        qed
      qed
    qed
  qed
qed

subsection \<open>The states of the loop\<close>

lemma loop_body_Next_counters:
  assumes "loop_body cap od fi l w = Next l' w'"
  shows "(extracted l' = extracted l \<and> target_idx l' = target_idx l) \<or>
         (extracted l' = extracted l + 1 \<and> target_idx l' = target_idx l + 1)"
  using assms
  by (auto simp: loop_body_def Let_def split: prod.splits option.splits sum.splits if_splits)

lemma loop_body_Break_locals:
  "loop_body cap od fi l w = Break l' w' \<Longrightarrow> l' = l"
  by (auto simp: loop_body_def Let_def split: prod.splits option.splits sum.splits if_splits)

lemma loop_body_Raise_index:
  "loop_body cap od fi l w = Raise e l' w' \<Longrightarrow> py_index fi (target_idx l) = Inl e"
  by (auto simp: loop_body_def Let_def split: prod.splits option.splits sum.splits if_splits)

lemma iterates_counters:
  assumes "iterates cap od fi n l0 w0 l w"
    and "extracted l0 = target_idx l0" and "0 \<le> target_idx l0"
  shows "extracted l = target_idx l \<and> 0 \<le> target_idx l \<and>
         (target_idx l \<le> n \<or> target_idx l = target_idx l0)"
  using assms
proof (induction rule: iterates.induct)
  case entry
  then show ?case by simp
next
  case (next_iter l w l' w')
  from next_iter.hyps(2) have "target_idx l < n" by (simp add: loop_cond_def)
  with next_iter loop_body_Next_counters [OF next_iter.hyps(3)] show ?case by auto
next
  case (break_iter l w l' w')
  with loop_body_Break_locals [OF break_iter.hyps(3)] show ?case by simp
qed

text \<open>The state the scan returns is one of the states of the loop.\<close>

lemma scan_ends_in_iterate:
  assumes "iterates cap od fi n l0 w0 l w" and "scan cap od fi n l w = (None, l', w')"
  shows "iterates cap od fi n l0 w0 l' w'"
  using assms
proof (induction cap od fi n l w rule: scan.induct)
  case (1 cap od fi n l w)
  show ?case
  proof (cases "loop_cond cap n l w")
    case False
    with "1.prems" show ?thesis by (simp add: scan_exit)
  next
    case cond: True
    show ?thesis
    proof (cases "loop_body cap od fi l w")
      case (Next l1 w1)
      from "1.prems"(1) cond Next have "iterates cap od fi n l0 w0 l1 w1"
        by (rule iterates.next_iter)
      moreover from cond Next "1.prems" have "scan cap od fi n l1 w1 = (None, l', w')"
        by (simp add: scan.simps [of cap od fi n l w])
      ultimately show ?thesis using cond Next by (rule "1.IH" [rotated 2])
    next
      case (Break l1 w1)
      with cond "1.prems" have "l' = l1" "w' = w1"
        by (simp_all add: scan.simps [of cap od fi n l w])
      moreover from "1.prems"(1) cond Break have "iterates cap od fi n l0 w0 l1 w1"
        by (rule iterates.break_iter)
      ultimately show ?thesis by simp
    next
      case (Raise e l1 w1)
      with cond "1.prems" show ?thesis by (simp add: scan.simps [of cap od fi n l w])
    qed
  qed
qed

text \<open>The run for ten frames and five targets.\<close>

lemma scan_ten_by_five:
  assumes "opened (captures w vp)"
    and "stream (captures w vp) =
           [Some f0, Some f1, Some f2, Some f3, Some f4, Some f5, Some f6, Some f7, Some f8, Some f9]"
  shows "\<exists>l w2. scan vp od [0, 2, 4, 6, 8] 5 init_locals w = (None, l, w2) \<and>
           extracted l = 5 \<and>
           files w2 = (files w)(frame_filename od 0 \<mapsto> f0, frame_filename od 1 \<mapsto> f2,
                       frame_filename od 2 \<mapsto> f4, frame_filename od 3 \<mapsto> f6,
                       frame_filename od 4 \<mapsto> f8)"
  using assms
  by (simp add: scan.simps loop_cond_def isOpened_def loop_body_def read_def py_index_def
        init_locals_def)

subsection \<open>\<open>extract_frames\<close>\<close>

lemma world_with_simps [simp]:
  "captures (world_with p c) p = c"
  "dirs (world_with p c) = {}"
  "files (world_with p c) = Map.empty"
  "refuses (world_with p c) q = None"
  "console (world_with p c) = []"
  by (simp_all add: world_with_def)

lemma os_makedirs_world_with:
  "p \<noteq> [] \<Longrightarrow>
   os_makedirs p (world_with q c) = Inr ((world_with q c)\<lparr>dirs := insert p {}\<rparr>)"
  by (simp add: os_makedirs_def)

lemma takeWhile_map_Some [simp]:
  "takeWhile (\<lambda>r. r \<noteq> None) (map Some fs) = map Some fs"
  by (induction fs) simp_all

lemma takeWhile_map_Some_failed [simp]:
  "takeWhile (\<lambda>r. r \<noteq> None) (map Some fs @ None # rest) = map Some fs"
  by (induction fs) simp_all

lemma takeWhile_Some_map_Some [simp]:
  "takeWhile (\<lambda>r. \<exists>y. r = Some y) (map Some fs) = map Some fs"
  by (induction fs) simp_all

lemma takeWhile_Some_map_Some_failed [simp]:
  "takeWhile (\<lambda>r. \<exists>y. r = Some y) (map Some fs @ None # rest) = map Some fs"
  by (induction fs) simp_all

lemma init_locals_simps [simp]:
  "extracted init_locals = 0" "current_frame init_locals = 0" "target_idx init_locals = 0"
  by (simp_all add: init_locals_def)

lemma clip_simps [simp]:
  "opened (clip T fs) = True" "frame_count (clip T fs) = T" "stream (clip T fs) = map Some fs"
  by (simp_all add: clip_def)

lemma extract_frames_no_directory:
  "os_makedirs od w = Inl e \<Longrightarrow> extract_frames vp od n w = (Some e, w)"
  by (simp add: extract_frames_def)

lemma extract_frames_unopened:
  assumes "os_makedirs od w = Inr w1" and "\<not> opened (captures w vp)"
  shows "extract_frames vp od n w = (Some (RuntimeError (''Cannot open video: '' @ vp)), w1)"
  using assms os_makedirs_Inr(1) [OF assms(1)]
  by (simp add: extract_frames_def isOpened_def Let_def)

lemma extract_frames_unknown_length:
  assumes "os_makedirs od w = Inr w1" and "opened (captures w vp)"
    and "frame_count (captures w vp) \<le> 0"
  shows "extract_frames vp od n w =
           (Some (RuntimeError ''Could not determine total frame count''), w1)"
  using assms os_makedirs_Inr(1) [OF assms(1)]
  by (simp add: extract_frames_def isOpened_def get_frame_count_def Let_def)

lemma extract_frames_run:
  assumes "os_makedirs od w = Inr w1" and "opened (captures w vp)"
    and "0 < frame_count (captures w vp)"
    and "scan vp od (frame_indices_of (frame_count (captures w vp)) n) n init_locals w1 =
           (None, l, w2)"
  shows "extract_frames vp od n w = (None, print (summary (extracted l) od) (release vp w2))"
  using assms os_makedirs_Inr(1) [OF assms(1)]
  by (simp add: extract_frames_def isOpened_def get_frame_count_def Let_def)

lemma scan_from_start:
  "\<exists>l w2. scan cap od (frame_indices_of T n) n init_locals w = (None, l, w2) \<and>
     extracted l = target_idx l \<and> 0 \<le> target_idx l \<and> (0 \<le> n \<longrightarrow> target_idx l \<le> n) \<and>
     (n \<le> 0 \<longrightarrow> target_idx l = 0) \<and>
     console w2 = console w \<and> dirs w2 = dirs w \<and>
     opened (captures w2 cap) = opened (captures w cap)"
proof -
  have "n \<le> int (length (frame_indices_of T n))" by simp
  from scan_counters [where l = init_locals and w = w and cap = cap and od = od, OF refl _ _ this]
  obtain l w2 where r: "scan cap od (frame_indices_of T n) n init_locals w = (None, l, w2)"
    and c: "extracted l = target_idx l" "0 \<le> target_idx l"
      "target_idx l \<le> n \<or> target_idx l = 0" by auto
  from scan_frame [where l = init_locals and w = w and cap = cap and od = od
      and fi = "frame_indices_of T n" and n = n, OF refl] r
  have "console w2 = console w" "dirs w2 = dirs w"
    "opened (captures w2 cap) = opened (captures w cap)" by auto
  with r c show ?thesis by auto
qed

text \<open>The files of a scan from the start of the video.\<close>

lemma scan_files_from_start:
  assumes "takeWhile (\<lambda>r. r \<noteq> None) (stream (captures w cap)) = map Some fs"
    and "scan cap od (frame_indices_of T n) n init_locals w = (None, l, w2)"
  shows "files w2 =
           foldl (\<lambda>m k. m(frame_filename od (int k) \<mapsto> fs ! nat (frame_indices_of T n ! k)))
             (files w) [0..<nat (target_idx l)]"
proof -
  have "\<exists>l' w'. scan cap od (frame_indices_of T n) n init_locals w = (None, l', w') \<and>
          target_idx init_locals \<le> target_idx l' \<and>
          files w' =
            foldl (\<lambda>m k. m(frame_filename od (int k) \<mapsto> fs ! nat (frame_indices_of T n ! k)))
              (files w) [nat (target_idx init_locals)..<nat (target_idx l')]"
    using assms(1) by (intro scan_files [OF refl]) simp_all
  with assms(2) show ?thesis by simp
qed

text \<open>More frames requested than the video has: the second target is frame 0 again.\<close>

lemma scan_oversampled_first:
  assumes "opened (captures w cap)" and "0 < T" and "T < n" and "T < 2 ^ 53"
    and "stream (captures w cap) = Some f # rs"
  shows "\<exists>l w2. scan cap od (frame_indices_of T n) n init_locals w = (None, l, w2) \<and>
           extracted l = 1 \<and> target_idx l = 1 \<and>
           files w2 = (files w)(frame_filename od 0 \<mapsto> f)"
proof -
  let ?fi = "frame_indices_of T n"
  let ?l = "init_locals\<lparr>extracted := extracted init_locals + 1,
              target_idx := target_idx init_locals + 1,
              current_frame := current_frame init_locals + 1\<rparr>"
  let ?w = "cv2_imwrite (frame_filename od (target_idx init_locals)) f (advance cap rs w)"
  from assms have cond: "loop_cond cap n init_locals w"
    by (simp add: loop_cond_def isOpened_def)
  from assms have "py_index ?fi (target_idx init_locals) = Inr (?fi ! nat (target_idx init_locals))"
    by (intro py_index_in_range) simp_all
  with assms have hit: "py_index ?fi (target_idx init_locals) = Inr (current_frame init_locals)"
    by (simp add: frame_indices_of_second)
  have step: "scan cap od ?fi n init_locals w = scan cap od ?fi n ?l ?w"
    using cond assms(5) hit by (rule scan_hit)
  have "\<exists>l' w'. scan cap od ?fi n ?l ?w = (None, l', w') \<and>
           extracted l' = extracted ?l \<and> target_idx l' = target_idx ?l \<and> files w' = files ?w"
    using assms by (intro scan_passed [OF refl]) (simp_all add: frame_indices_of_second)
  with step show ?thesis by auto
qed

lemma scan_first_read_fails:
  assumes "stream (captures w cap) = [] \<or> (\<exists>rs. stream (captures w cap) = None # rs)"
  shows "\<exists>w2. scan cap od fi n init_locals w = (None, init_locals, w2) \<and> files w2 = files w"
proof (cases "loop_cond cap n init_locals w")
  case False
  then show ?thesis by (simp add: scan_exit)
next
  case True
  with assms show ?thesis by (auto simp: scan_no_frame scan_failed_read)
qed

lemma extract_frames_oversampled:
  assumes "os_makedirs od w = Inr w1"
    and "opened (captures w vp)" and "frame_count (captures w vp) = T"
    and "0 < T" and "T < n" and "T < 2 ^ 53" and "stream (captures w vp) = Some f # rs"
  shows "\<exists>l w2. scan vp od (frame_indices_of T n) n init_locals w1 = (None, l, w2) \<and>
           extracted l = 1 \<and> target_idx l = 1 \<and>
           files w2 = (files w)(frame_filename od 0 \<mapsto> f) \<and> console w2 = console w \<and>
           extract_frames vp od n w = (None, print (summary 1 od) (release vp w2))"
proof -
  note mk = os_makedirs_Inr [OF assms(1)]
  from assms mk scan_oversampled_first [of w1 vp T n f rs od]
  obtain l w2 where r: "scan vp od (frame_indices_of T n) n init_locals w1 = (None, l, w2)"
    and c: "extracted l = 1" "target_idx l = 1" "files w2 = (files w)(frame_filename od 0 \<mapsto> f)"
    by auto
  from scan_from_start [of vp od T n w1] r mk have "console w2 = console w" by auto
  moreover from extract_frames_run [of od w w1 vp n l w2] assms r c
  have "extract_frames vp od n w = (None, print (summary 1 od) (release vp w2))" by simp
  ultimately show ?thesis using r c by auto
qed

text \<open>The strings of small runs.\<close>

lemma summary_small:
  "summary 0 od = ''Extracted 0 frames to '' @ [CHR 0x27] @ od @ [CHR 0x27]"
  "summary 1 od = ''Extracted 1 frames to '' @ [CHR 0x27] @ od @ [CHR 0x27]"
  "summary 2 od = ''Extracted 2 frames to '' @ [CHR 0x27] @ od @ [CHR 0x27]"
  "summary 3 od = ''Extracted 3 frames to '' @ [CHR 0x27] @ od @ [CHR 0x27]"
  "summary 5 od = ''Extracted 5 frames to '' @ [CHR 0x27] @ od @ [CHR 0x27]"
  by (simp_all add: summary_def str_def digits.simps)

lemma frame_filename_small:
  "frame_filename od 0 = os_path_join od ''frame_0000.png''"
  "frame_filename od 1 = os_path_join od ''frame_0001.png''"
  "frame_filename od 2 = os_path_join od ''frame_0002.png''"
  "frame_filename od 3 = os_path_join od ''frame_0003.png''"
  "frame_filename od 4 = os_path_join od ''frame_0004.png''"
  by (simp_all add: frame_filename_def fmt_04d_def zfill_def digits.simps eval_nat_numeral)



text \<open>The targets for ten frames and five requests.\<close>

lemma frame_indices_10_5: "frame_indices_of 10 5 = [0, 2, 4, 6, 8]"
proof (rule nth_equalityI)
  show "length (frame_indices_of 10 5) = length [0, 2, 4, 6, 8 :: int]" by simp
next
  fix i assume "i < length (frame_indices_of 10 5)"
  then have i: "i < 5" by simp
  then have "frame_indices_of 10 5 ! i = (int i * 10) div 5"
    by (intro nth_frame_indices_of_exact) simp_all
  moreover from i have "i = 0 \<or> i = 1 \<or> i = 2 \<or> i = 3 \<or> i = 4" by arith
  ultimately show "frame_indices_of 10 5 ! i = [0, 2, 4, 6, 8] ! i" by auto
qed

subsection \<open>File names\<close>

lemma decimal_value_snoc:
  "decimal_value (s @ [c]) = 10 * decimal_value s + (of_char c - 48)"
  by (simp add: decimal_value_def)

lemma decimal_value_digit:
  assumes "d < 10"
  shows "decimal_value [''0123456789'' ! d] = d"
proof -
  from assms have "d = 0 \<or> d = 1 \<or> d = 2 \<or> d = 3 \<or> d = 4 \<or> d = 5 \<or> d = 6 \<or> d = 7 \<or>
      d = 8 \<or> d = 9" by arith
  then show ?thesis by (elim disjE) (simp_all add: decimal_value_def)
qed

lemma decimal_value_digits: "decimal_value (digits n) = n"
proof (induction n rule: digits.induct)
  case (1 n)
  show ?case
  proof (cases "n < 10")
    case True
    then show ?thesis by (simp add: digits.simps [of n] decimal_value_digit)
  next
    case False
    have "of_char (''0123456789'' ! (n mod 10)) - 48 = n mod 10"
      using decimal_value_digit [of "n mod 10"] by (simp add: decimal_value_def)
    with False "1.IH" show ?thesis
      by (simp add: digits.simps [of n] decimal_value_snoc)
  qed
qed

lemma decimal_value_zeros: "decimal_value (replicate k CHR ''0'' @ s) = decimal_value s"
proof -
  have "foldl (\<lambda>v c. 10 * v + (of_char c - 48)) (0::nat) (replicate k CHR ''0'') = 0"
    by (induction k) simp_all
  then show ?thesis by (simp add: decimal_value_def)
qed

lemma decimal_value_fmt_04d: "0 \<le> k \<Longrightarrow> decimal_value (fmt_04d k) = nat k"
  by (simp add: fmt_04d_def zfill_def decimal_value_zeros decimal_value_digits)

text \<open>Different targets get different file names.\<close>

lemma frame_filename_inj:
  assumes "0 \<le> j" and "0 \<le> k" and "frame_filename od j = frame_filename od k"
  shows "j = k"
proof -
  let ?p = "if od = [] \<or> last od = CHR ''/'' then od else od @ ''/''"
  have name: "frame_filename od i = ?p @ ''frame_'' @ fmt_04d i @ ''.png''" for i
    by (simp add: frame_filename_def os_path_join_def)
  from assms(3) have "fmt_04d j = fmt_04d k" by (simp only: name same_append_eq append_same_eq)
  then have "decimal_value (fmt_04d j) = decimal_value (fmt_04d k)" by simp
  with assms show ?thesis by (simp add: decimal_value_fmt_04d)
qed

lemma frame_filename_inj_on: "inj_on (\<lambda>k. frame_filename od (int k)) A"
  by (rule inj_onI) (use frame_filename_inj [of "int _" "int _" od] in auto)

text \<open>What a sequence of writes under different names leaves in the file system.\<close>

lemma foldl_writes_other:
  "p \<notin> g ` set ks \<Longrightarrow> foldl (\<lambda>m k. m(g k \<mapsto> h k)) m0 ks p = m0 p"
  by (induction ks arbitrary: m0) auto

lemma foldl_writes_at:
  assumes "inj_on g (set ks)" and "j \<in> set ks"
  shows "foldl (\<lambda>m k. m(g k \<mapsto> h k)) m0 ks (g j) = Some (h j)"
  using assms
proof (induction ks arbitrary: m0 rule: rev_induct)
  case Nil
  then show ?case by simp
next
  case (snoc k ks)
  show ?case
  proof (cases "j = k")
    case True
    then show ?thesis by simp
  next
    case False
    with snoc.prems have j: "j \<in> set ks" and "g j \<noteq> g k" by (auto simp: inj_on_def)
    moreover from snoc.prems have "inj_on g (set ks)" by (simp add: inj_on_def)
    ultimately show ?thesis using snoc.IH by simp
  qed
qed

lemma written_frames:
  assumes "files w2 =
             foldl (\<lambda>m k. m(frame_filename od (int k) \<mapsto> h k)) (files w) [0..<n]"
    and "k < n"
  shows "files w2 (frame_filename od (int k)) = Some (h k)"
proof -
  have "inj_on (\<lambda>k. frame_filename od (int k)) (set [0..<n])" by (rule frame_filename_inj_on)
  moreover from assms(2) have "k \<in> set [0..<n]" by simp
  ultimately have "foldl (\<lambda>m k. m(frame_filename od (int k) \<mapsto> h k)) (files w) [0..<n]
      (frame_filename od (int k)) = Some (h k)"
    by (rule foldl_writes_at)
  with assms(1) show ?thesis by simp
qed

subsection \<open>Small facts for the claims\<close>




lemma os_makedirs_Inl:
  "os_makedirs p w = Inl e \<Longrightarrow> \<exists>x. e = OSError x"
  by (auto simp: os_makedirs_def split: if_splits option.splits)

lemma os_makedirs_advance:
  "os_makedirs p w = Inr w1 \<Longrightarrow> os_makedirs p (advance cap rs w) = Inr (advance cap rs w1)"
  by (auto simp: os_makedirs_def advance_def split: if_splits option.splits)

lemma frame_indices_3_2: "frame_indices_of 3 2 = [0, 1]"
proof (rule nth_equalityI)
  show "length (frame_indices_of 3 2) = length [0, 1 :: int]" by simp
next
  fix i assume "i < length (frame_indices_of 3 2)"
  then have i: "i < 2" by simp
  then have "frame_indices_of 3 2 ! i = (int i * 3) div 2"
    by (intro nth_frame_indices_of_exact) simp_all
  moreover from i have "i = 0 \<or> i = 1" by arith
  ultimately show "frame_indices_of 3 2 ! i = [0, 1] ! i" by auto
qed

lemma frame_indices_2_1: "frame_indices_of 2 1 = [0]"
proof (rule nth_equalityI)
  show "length (frame_indices_of 2 1) = length [0 :: int]" by simp
next
  fix i assume "i < length (frame_indices_of 2 1)"
  then have i: "i = 0" by simp
  then show "frame_indices_of 2 1 ! i = [0] ! i"
    by (simp add: nth_frame_indices_of math_floor_def)
qed

section \<open>The claims\<close>

text \<open>
  Claim C1, amended. A video that opens, reports \<open>T > 0\<close> frames and yields exactly \<open>T\<close>
  frames, asked for \<open>N > T\<close> frames, once the output directory is made: the scan ends
  with \<open>extracted = 1\<close>. Frame 0 is written as \<open>frame_0000.png\<close>; the second target is
  frame 0 again, which the scan has passed, so nothing else is written, and the printed
  count is 1. (\<open>T < 2^53\<close>: the quotient \<open>T / N\<close> is then below 1 as a float too.)
\<close>

theorem extract_frames_oversampled_count:
  assumes "os_makedirs output_dir w = Inr w1"
    and "opened (captures w video_path)" and "frame_count (captures w video_path) = T"
    and "stream (captures w video_path) = map Some fs" and "int (length fs) = T"
    and "0 < T" and "T < N" and "T < 2 ^ 53"
  shows "\<exists>l w2. scan video_path output_dir (frame_indices_of T N) N init_locals w1 =
                  (None, l, w2) \<and>
           extracted l = 1 \<and>
           files w2 = (files w)(frame_filename output_dir 0 \<mapsto> hd fs) \<and>
           extract_frames video_path output_dir N w =
             (None, print (summary 1 output_dir) (release video_path w2))"
proof -
  from assms obtain f fs' where fs: "fs = f # fs'" by (cases fs) auto
  with assms have "stream (captures w video_path) = Some f # map Some fs'" by simp
  from extract_frames_oversampled [OF assms(1,2,3,6,7,8) this] fs
  show ?thesis by auto
qed

theorem extract_frames_oversampled_count_witness:
  "fst (extract_frames ''video.mp4'' ''frames'' 5
          (world_with ''video.mp4'' (clip 2 [10, 11 :: nat]))) = None \<and>
   last (console (snd (extract_frames ''video.mp4'' ''frames'' 5
          (world_with ''video.mp4'' (clip 2 [10, 11 :: nat]))))) =
     ''Extracted 1 frames to '' @ [CHR 0x27] @ ''frames'' @ [CHR 0x27]"
  using extract_frames_oversampled_count [of "''frames''"
      "world_with ''video.mp4'' (clip 2 [10, 11 :: nat])" _ "''video.mp4''" 2 "[10, 11]" 5]
  by (auto simp: summary_small os_makedirs_world_with)

text \<open>
  The claim as stated fails for \<open>T = 3\<close>, \<open>N = 200\<close>: the video yields its three frames
  and the printed count is 1, not 3.
\<close>

theorem extract_frames_oversampled_counterexample:
  "fst (extract_frames ''video.mp4'' ''frames'' 200
          (world_with ''video.mp4'' (clip 3 [10, 11, 12 :: nat]))) = None \<and>
   console (snd (extract_frames ''video.mp4'' ''frames'' 200
          (world_with ''video.mp4'' (clip 3 [10, 11, 12 :: nat])))) =
     [''Extracted 1 frames to '' @ [CHR 0x27] @ ''frames'' @ [CHR 0x27]] \<and>
   console (snd (extract_frames ''video.mp4'' ''frames'' 200
          (world_with ''video.mp4'' (clip 3 [10, 11, 12 :: nat])))) \<noteq>
     [summary 3 ''frames'']"
  using extract_frames_oversampled [of "''frames''"
      "world_with ''video.mp4'' (clip 3 [10, 11, 12 :: nat])" _ "''video.mp4''" 3 200 10
      "[Some 11, Some 12]"]
  by (auto simp: summary_small os_makedirs_world_with)









text \<open>
  Claim C5. A video that opens and reports \<open>T > 0\<close> frames, asked for \<open>N > T\<close> frames,
  once the output directory is made: the second target equals the first (frame 0), the
  target pointer never gets past it, so at most one frame is extracted, fewer than \<open>N\<close>,
  whatever the stream yields; the run returns normally and the only line printed is the
  usual summary. (\<open>T < 2^53\<close>: the quotient \<open>T / N\<close> is then below 1 as a float too.)
\<close>

theorem extract_frames_duplicate_target_never_matched:
  assumes "os_makedirs output_dir w = Inr w1"
    and "opened (captures w video_path)" and "frame_count (captures w video_path) = T"
    and "0 < T" and "T < N" and "T < 2 ^ 53"
  shows "frame_indices_of T N ! 1 = frame_indices_of T N ! 0 \<and>
         (\<exists>l w2. scan video_path output_dir (frame_indices_of T N) N init_locals w1 =
                  (None, l, w2) \<and>
            extracted l = target_idx l \<and> target_idx l \<le> 1 \<and> extracted l < N \<and>
            extract_frames video_path output_dir N w =
              (None, print (summary (extracted l) output_dir) (release video_path w2)) \<and>
            console (snd (extract_frames video_path output_dir N w)) =
              console w @ [summary (extracted l) output_dir])"
proof
  show "frame_indices_of T N ! 1 = frame_indices_of T N ! 0"
    using assms by (simp add: frame_indices_of_second)
next
  let ?scan = "scan video_path output_dir (frame_indices_of T N) N init_locals w1"
  note mk = os_makedirs_Inr [OF assms(1)]
  from scan_from_start [of video_path output_dir T N w1] mk
  obtain l w2 where r: "?scan = (None, l, w2)" and eq: "extracted l = target_idx l"
    and con: "console w2 = console w" by auto
  from assms have "0 < frame_count (captures w video_path)" by simp
  from extract_frames_run [OF assms(1,2) this, of N l w2] r assms
  have e: "extract_frames video_path output_dir N w =
             (None, print (summary (extracted l) output_dir) (release video_path w2))" by simp
  have "target_idx l \<le> 1"
  proof (cases "stream (captures w video_path)")
    case Nil
    with scan_first_read_fails [of w1 video_path output_dir "frame_indices_of T N" N] r mk
    show ?thesis by auto
  next
    case (Cons x rs)
    show ?thesis
    proof (cases x)
      case None
      with Cons scan_first_read_fails [of w1 video_path output_dir "frame_indices_of T N" N] r mk
      show ?thesis by auto
    next
      case (Some f)
      with Cons have "stream (captures w video_path) = Some f # rs" by simp
      from extract_frames_oversampled [OF assms this] r
      show ?thesis by auto
    qed
  qed
  with eq assms have "extracted l < N" by simp
  with r eq e con \<open>target_idx l \<le> 1\<close>
  show "\<exists>l w2. ?scan = (None, l, w2) \<and>
            extracted l = target_idx l \<and> target_idx l \<le> 1 \<and> extracted l < N \<and>
            extract_frames video_path output_dir N w =
              (None, print (summary (extracted l) output_dir) (release video_path w2)) \<and>
            console (snd (extract_frames video_path output_dir N w)) =
              console w @ [summary (extracted l) output_dir]"
    by auto
qed

theorem extract_frames_duplicate_target_never_matched_witness:
  "frame_indices_of 3 5 ! 1 = frame_indices_of 3 5 ! 0 \<and>
   (\<exists>k. k \<le> 1 \<and> k < 5 \<and>
      console (snd (extract_frames ''video.mp4'' ''frames'' 5
          (world_with ''video.mp4'' (clip 3 [10, 11, 12 :: nat])))) =
        [summary k ''frames''])"
proof -
  let ?w = "world_with ''video.mp4'' (clip 3 [10, 11, 12 :: nat])"
  have "os_makedirs ''frames'' ?w = Inr (?w\<lparr>dirs := insert ''frames'' {}\<rparr>)"
    and "opened (captures ?w ''video.mp4'')" and "frame_count (captures ?w ''video.mp4'') = 3"
    and "(0::int) < 3" and "(3::int) < 5" and "(3::int) < 2 ^ 53"
    by (simp_all add: os_makedirs_world_with)
  from extract_frames_duplicate_target_never_matched [OF this]
  obtain l :: locals where "frame_indices_of 3 5 ! 1 = frame_indices_of 3 5 ! 0"
    and "extracted l = target_idx l" and "target_idx l \<le> 1" and "extracted l < 5"
    and "console (snd (extract_frames ''video.mp4'' ''frames'' 5 ?w)) =
           console ?w @ [summary (extracted l) ''frames'']"
    by blast
  then have "frame_indices_of 3 5 ! 1 = frame_indices_of 3 5 ! 0"
    and "extracted l \<le> 1 \<and> extracted l < 5 \<and>
      console (snd (extract_frames ''video.mp4'' ''frames'' 5 ?w)) =
        [summary (extracted l) ''frames'']"
    by simp_all
  then show ?thesis by blast
qed

text \<open>
  Claim C6. A video that opens, reports 10 frames and yields the ten frames
  \<open>f0 \<dots> f9\<close>, asked for 5 frames, once the output directory is made: the targets are
  \<open>[0, 2, 4, 6, 8]\<close>, the call returns after printing the count 5, and the files written
  are \<open>frame_0000.png\<close> to \<open>frame_0004.png\<close> in the output directory, holding \<open>f0\<close>,
  \<open>f2\<close>, \<open>f4\<close>, \<open>f6\<close>, \<open>f8\<close>.
\<close>

theorem extract_frames_ten_by_five:
  assumes "os_makedirs output_dir w = Inr w1"
    and "opened (captures w video_path)" and "frame_count (captures w video_path) = 10"
    and "stream (captures w video_path) =
           [Some f0, Some f1, Some f2, Some f3, Some f4, Some f5, Some f6, Some f7, Some f8, Some f9]"
  shows "frame_indices_of 10 5 = [0, 2, 4, 6, 8] \<and>
         fst (extract_frames video_path output_dir 5 w) = None \<and>
         files (snd (extract_frames video_path output_dir 5 w)) =
           (files w)(os_path_join output_dir ''frame_0000.png'' \<mapsto> f0,
                     os_path_join output_dir ''frame_0001.png'' \<mapsto> f2,
                     os_path_join output_dir ''frame_0002.png'' \<mapsto> f4,
                     os_path_join output_dir ''frame_0003.png'' \<mapsto> f6,
                     os_path_join output_dir ''frame_0004.png'' \<mapsto> f8) \<and>
         console (snd (extract_frames video_path output_dir 5 w)) =
           console w @ [summary 5 output_dir]"
proof -
  note mk = os_makedirs_Inr [OF assms(1)]
  from assms mk scan_ten_by_five [of w1 video_path f0 f1 f2 f3 f4 f5 f6 f7 f8 f9 output_dir]
  obtain l w2 where
    r: "scan video_path output_dir [0, 2, 4, 6, 8] 5 init_locals w1 = (None, l, w2)"
    and c: "extracted l = 5"
    and f: "files w2 = (files w)(frame_filename output_dir 0 \<mapsto> f0,
              frame_filename output_dir 1 \<mapsto> f2, frame_filename output_dir 2 \<mapsto> f4,
              frame_filename output_dir 3 \<mapsto> f6, frame_filename output_dir 4 \<mapsto> f8)"
    by auto
  from scan_from_start [of video_path output_dir 10 5 w1] r mk
  have con: "console w2 = console w" by (simp add: frame_indices_10_5)
  from extract_frames_run [of output_dir w w1 video_path 5 l w2] assms r c
  have "extract_frames video_path output_dir 5 w =
          (None, print (summary 5 output_dir) (release video_path w2))"
    by (simp add: frame_indices_10_5)
  with f con show ?thesis by (simp add: frame_indices_10_5 frame_filename_small)
qed

theorem extract_frames_ten_by_five_witness:
  "files (snd (extract_frames ''video.mp4'' ''frames'' 5
      (world_with ''video.mp4''
         (clip 10 [100, 101, 102, 103, 104, 105, 106, 107, 108, 109 :: nat]))))
     ''frames/frame_0003.png'' = Some 106 \<and>
   console (snd (extract_frames ''video.mp4'' ''frames'' 5
      (world_with ''video.mp4''
         (clip 10 [100, 101, 102, 103, 104, 105, 106, 107, 108, 109 :: nat])))) =
     [''Extracted 5 frames to '' @ [CHR 0x27] @ ''frames'' @ [CHR 0x27]]"
  using extract_frames_ten_by_five [of "''frames''" "world_with ''video.mp4''
         (clip 10 [100, 101, 102, 103, 104, 105, 106, 107, 108, 109 :: nat])" _ "''video.mp4''"
      100 101 102 103 104 105 106 107 108 109]
  by (simp add: os_path_join_def summary_small os_makedirs_world_with)




text \<open>
  Claim C8. A capture that is open and reports a positive frame count, whose read
  fails after the frames \<open>fs\<close>, once the output directory is made: the call returns
  normally, the capture is released and one summary line is printed. The files at the
  end are the files when the loop was left, and these are the files of before with, for
  each target \<open>k\<close> below the final count, the frame at that target written under the name
  of \<open>k\<close>: every file written before the failure is there at the end and holds its
  frame. The files and the console are also those of the run on the stream that ends
  after \<open>fs\<close>.
\<close>

theorem extract_frames_read_failure_is_end_of_stream:
  assumes "os_makedirs output_dir w = Inr w1"
    and "opened (captures w video_path)" and "0 < frame_count (captures w video_path)"
    and "stream (captures w video_path) = map Some fs @ None # rest"
  shows "fst (extract_frames video_path output_dir num_frames w) = None \<and>
         \<not> opened (captures (snd (extract_frames video_path output_dir num_frames w)) video_path) \<and>
         (\<exists>l w2. scan video_path output_dir
                    (frame_indices_of (frame_count (captures w video_path)) num_frames)
                    num_frames init_locals w1 = (None, l, w2) \<and>
            files (snd (extract_frames video_path output_dir num_frames w)) = files w2 \<and>
            files w2 =
              foldl (\<lambda>m k. m(frame_filename output_dir (int k) \<mapsto>
                       fs ! nat (frame_indices_of (frame_count (captures w video_path))
                                   num_frames ! k)))
                (files w) [0..<nat (extracted l)] \<and>
            (\<forall>k<nat (extracted l).
               files (snd (extract_frames video_path output_dir num_frames w))
                 (frame_filename output_dir (int k)) =
               Some (fs ! nat (frame_indices_of (frame_count (captures w video_path))
                                 num_frames ! k))) \<and>
            console (snd (extract_frames video_path output_dir num_frames w)) =
              console w @ [summary (extracted l) output_dir]) \<and>
         fst (extract_frames video_path output_dir num_frames
                (advance video_path (map Some fs) w)) = None \<and>
         files (snd (extract_frames video_path output_dir num_frames w)) =
           files (snd (extract_frames video_path output_dir num_frames
                         (advance video_path (map Some fs) w))) \<and>
         console (snd (extract_frames video_path output_dir num_frames w)) =
           console (snd (extract_frames video_path output_dir num_frames
                           (advance video_path (map Some fs) w)))"
proof -
  let ?T = "frame_count (captures w video_path)"
  let ?fi = "frame_indices_of ?T num_frames"
  let ?v = "advance video_path (map Some fs) w"
  let ?v1 = "advance video_path (map Some fs) w1"
  let ?F = "\<lambda>m k. m(frame_filename output_dir (int k) \<mapsto> fs ! nat (?fi ! k))"
  let ?ef = "extract_frames video_path output_dir num_frames w"
  note mk = os_makedirs_Inr [OF assms(1)]
  have mkv: "os_makedirs output_dir ?v = Inr ?v1"
    using assms(1) by (rule os_makedirs_advance)
  have "\<exists>e l w2 v2. scan video_path output_dir ?fi num_frames init_locals w1 = (e, l, w2) \<and>
          scan video_path output_dir ?fi num_frames init_locals ?v1 = (e, l, v2) \<and>
          files v2 = files w2"
    using assms mk by (intro scan_failure_is_end [OF refl]) simp_all
  then obtain e l w2 v2
    where rw: "scan video_path output_dir ?fi num_frames init_locals w1 = (e, l, w2)"
      and rv: "scan video_path output_dir ?fi num_frames init_locals ?v1 = (e, l, v2)"
      and f: "files v2 = files w2" by blast
  from scan_from_start [of video_path output_dir ?T num_frames w1] rw mk
  have e: "e = None" and cw: "console w2 = console w" and tl: "extracted l = target_idx l"
    by auto
  from scan_from_start [of video_path output_dir ?T num_frames ?v1] rv mk
  have cv: "console v2 = console w" by auto
  from rw e have rw': "scan video_path output_dir ?fi num_frames init_locals w1 = (None, l, w2)"
    by simp
  from extract_frames_run [OF assms(1,2,3) rw']
  have efw: "?ef = (None, print (summary (extracted l) output_dir) (release video_path w2))" .
  from extract_frames_run [OF mkv, of video_path num_frames l v2] assms rv e
  have efv: "extract_frames video_path output_dir num_frames ?v =
          (None, print (summary (extracted l) output_dir) (release video_path v2))" by simp
  have "takeWhile (\<lambda>r. r \<noteq> None) (stream (captures w1 video_path)) = map Some fs"
    using assms mk by simp
  from scan_files_from_start [OF this rw'] tl mk
  have fw: "files w2 = foldl ?F (files w) [0..<nat (extracted l)]" by simp
  have pw: "\<forall>k<nat (extracted l). files w2 (frame_filename output_dir (int k)) =
              Some (fs ! nat (?fi ! k))"
    using written_frames [OF fw] by simp
  have 1: "fst ?ef = None" using efw by simp
  have 2: "\<not> opened (captures (snd ?ef) video_path)" using efw by simp
  have 3: "files (snd ?ef) = files w2" using efw by simp
  have 4: "\<forall>k<nat (extracted l). files (snd ?ef) (frame_filename output_dir (int k)) =
              Some (fs ! nat (?fi ! k))" using pw 3 by simp
  have 5: "console (snd ?ef) = console w @ [summary (extracted l) output_dir]"
    using efw cw by simp
  have 6: "fst (extract_frames video_path output_dir num_frames ?v) = None" using efv by simp
  have 7: "files (snd ?ef) = files (snd (extract_frames video_path output_dir num_frames ?v))"
    using efw efv f by simp
  have 8: "console (snd ?ef) = console (snd (extract_frames video_path output_dir num_frames ?v))"
    using efw efv cw cv by simp
  show ?thesis
  proof (intro conjI exI)
    show "fst ?ef = None" by (rule 1)
    show "\<not> opened (captures (snd ?ef) video_path)" by (rule 2)
    show "scan video_path output_dir ?fi num_frames init_locals w1 = (None, l, w2)" by (rule rw')
    show "files (snd ?ef) = files w2" by (rule 3)
    show "files w2 = foldl ?F (files w) [0..<nat (extracted l)]" by (rule fw)
    show "\<forall>k<nat (extracted l). files (snd ?ef) (frame_filename output_dir (int k)) =
              Some (fs ! nat (?fi ! k))" by (rule 4)
    show "console (snd ?ef) = console w @ [summary (extracted l) output_dir]" by (rule 5)
    show "fst (extract_frames video_path output_dir num_frames ?v) = None" by (rule 6)
    show "files (snd ?ef) = files (snd (extract_frames video_path output_dir num_frames ?v))"
      by (rule 7)
    show "console (snd ?ef) =
            console (snd (extract_frames video_path output_dir num_frames ?v))" by (rule 8)
  qed
qed

theorem extract_frames_read_failure_is_end_of_stream_witness:
  "fst (extract_frames ''video.mp4'' ''frames'' 2
      (world_with ''video.mp4''
         \<lparr>opened = True, frame_count = 3, stream = [Some (10::nat), None, Some 12]\<rparr>)) = None \<and>
   \<not> opened (captures (snd (extract_frames ''video.mp4'' ''frames'' 2
      (world_with ''video.mp4''
         \<lparr>opened = True, frame_count = 3, stream = [Some (10::nat), None, Some 12]\<rparr>)))
      ''video.mp4'') \<and>
   files (snd (extract_frames ''video.mp4'' ''frames'' 2
      (world_with ''video.mp4''
         \<lparr>opened = True, frame_count = 3, stream = [Some (10::nat), None, Some 12]\<rparr>)))
     ''frames/frame_0000.png'' = Some 10 \<and>
   files (snd (extract_frames ''video.mp4'' ''frames'' 2
      (world_with ''video.mp4''
         \<lparr>opened = True, frame_count = 3, stream = [Some (10::nat), None, Some 12]\<rparr>))) =
   files (snd (extract_frames ''video.mp4'' ''frames'' 2
      (advance ''video.mp4'' [Some 10] (world_with ''video.mp4''
         \<lparr>opened = True, frame_count = 3, stream = [Some (10::nat), None, Some 12]\<rparr>))))"
proof -
  let ?w = "world_with ''video.mp4''
         \<lparr>opened = True, frame_count = 3, stream = [Some (10::nat), None, Some 12]\<rparr>"
  let ?w1 = "?w\<lparr>dirs := insert ''frames'' {}\<rparr>"
  let ?ef = "extract_frames ''video.mp4'' ''frames'' 2 ?w"
  have mk: "os_makedirs ''frames'' ?w = Inr ?w1"
    by (simp add: os_makedirs_world_with)
  have "\<exists>w2. scan ''video.mp4'' ''frames'' (frame_indices_of 3 2) 2 init_locals ?w1 =
          (None, \<lparr>extracted = 1, current_frame = 1, target_idx = 1\<rparr>, w2)"
    by (simp add: frame_indices_3_2 scan.simps loop_cond_def isOpened_def loop_body_def
          read_def py_index_def init_locals_def)
  then obtain w2' where r: "scan ''video.mp4'' ''frames'' (frame_indices_of 3 2) 2 init_locals ?w1 =
          (None, \<lparr>extracted = 1, current_frame = 1, target_idx = 1\<rparr>, w2')" ..
  from extract_frames_read_failure_is_end_of_stream
    [OF mk, of "''video.mp4''" "[10]" "[Some 12]" 2]
  obtain l w2 where a: "fst ?ef = None" and b: "\<not> opened (captures (snd ?ef) ''video.mp4'')"
    and s: "scan ''video.mp4'' ''frames'' (frame_indices_of 3 2) 2 init_locals ?w1 =
              (None, l, w2)"
    and p: "\<forall>k<nat (extracted l). files (snd ?ef) (frame_filename ''frames'' (int k)) =
              Some ([10] ! nat (frame_indices_of 3 2 ! k))"
    and t: "files (snd ?ef) = files (snd (extract_frames ''video.mp4'' ''frames'' 2
              (advance ''video.mp4'' [Some 10] ?w)))"
    by auto
  from r s have "extracted l = 1" by simp
  with p [rule_format, of 0] have "files (snd ?ef) (frame_filename ''frames'' 0) = Some 10"
    by (simp add: frame_indices_3_2)
  then have "files (snd ?ef) ''frames/frame_0000.png'' = Some 10"
    by (simp add: frame_filename_small os_path_join_def)
  with a b t show ?thesis by simp
qed

text \<open>
  Claim C9. A capture that is open and reports a positive frame count, asked for
  \<open>N > 0\<close> frames, once the output directory is made: in every state of the scan loop
  \<open>extracted = target_idx \<le> N\<close>; the scan returns in such a state, and the count that
  \<open>extract_frames\<close> prints is at most \<open>N\<close>.
\<close>

theorem scan_invariant_extracted_eq_target_idx:
  assumes "os_makedirs output_dir w = Inr w1"
    and "opened (captures w video_path)" and "0 < frame_count (captures w video_path)"
    and "0 < N"
  shows "(\<forall>l' w'. iterates video_path output_dir
                    (frame_indices_of (frame_count (captures w video_path)) N) N
                    init_locals w1 l' w' \<longrightarrow>
            extracted l' = target_idx l' \<and> target_idx l' \<le> N) \<and>
         (\<exists>l w2. scan video_path output_dir
                    (frame_indices_of (frame_count (captures w video_path)) N) N
                    init_locals w1 = (None, l, w2) \<and>
            iterates video_path output_dir
                    (frame_indices_of (frame_count (captures w video_path)) N) N
                    init_locals w1 l w2 \<and>
            extracted l \<le> N \<and>
            extract_frames video_path output_dir N w =
              (None, print (summary (extracted l) output_dir) (release video_path w2)))"
proof -
  let ?fi = "frame_indices_of (frame_count (captures w video_path)) N"
  have inv: "extracted l' = target_idx l' \<and> target_idx l' \<le> N"
    if "iterates video_path output_dir ?fi N init_locals w1 l' w'" for l' w'
    using iterates_counters [OF that] assms(4) by auto
  from scan_from_start [of video_path output_dir "frame_count (captures w video_path)" N w1]
  obtain l w2 where r: "scan video_path output_dir ?fi N init_locals w1 = (None, l, w2)"
    by auto
  have "iterates video_path output_dir ?fi N init_locals w1 init_locals w1"
    by (rule iterates.entry)
  then have it: "iterates video_path output_dir ?fi N init_locals w1 l w2"
    using r by (rule scan_ends_in_iterate)
  from extract_frames_run [OF assms(1,2,3) r]
  have "extract_frames video_path output_dir N w =
          (None, print (summary (extracted l) output_dir) (release video_path w2))" .
  with inv r it show ?thesis by auto
qed

theorem scan_invariant_extracted_eq_target_idx_witness:
  "iterates ''video.mp4'' ''frames'' (frame_indices_of 2 1) 1 init_locals
     ((world_with ''video.mp4'' (clip 2 [10, 11 :: nat]))\<lparr>dirs := insert ''frames'' {}\<rparr>)
     \<lparr>extracted = 1, current_frame = 1, target_idx = 1\<rparr>
     (cv2_imwrite (frame_filename ''frames'' 0) 10
        (advance ''video.mp4'' [Some 11]
           ((world_with ''video.mp4'' (clip 2 [10, 11]))\<lparr>dirs := insert ''frames'' {}\<rparr>))) \<and>
   extracted \<lparr>extracted = 1, current_frame = 1, target_idx = 1\<rparr> =
     target_idx \<lparr>extracted = 1, current_frame = 1, target_idx = 1\<rparr> \<and>
   target_idx \<lparr>extracted = 1, current_frame = 1, target_idx = 1\<rparr> \<le> 1"
proof -
  let ?w = "world_with ''video.mp4'' (clip 2 [10, 11 :: nat])"
  let ?w1 = "?w\<lparr>dirs := insert ''frames'' {}\<rparr>"
  let ?l = "\<lparr>extracted = 1, current_frame = 1, target_idx = 1\<rparr>"
  let ?w2 = "cv2_imwrite (frame_filename ''frames'' 0) 10 (advance ''video.mp4'' [Some 11] ?w1)"
  have mk: "os_makedirs ''frames'' ?w = Inr ?w1"
    by (simp add: os_makedirs_world_with)
  have cond: "loop_cond ''video.mp4'' 1 init_locals ?w1"
    by (simp add: loop_cond_def isOpened_def)
  have body: "loop_body ''video.mp4'' ''frames'' (frame_indices_of 2 1) init_locals ?w1 =
                Next ?l ?w2"
    by (simp add: frame_indices_2_1 loop_body_def read_def py_index_def init_locals_def)
  have it: "iterates ''video.mp4'' ''frames'' (frame_indices_of 2 1) 1 init_locals ?w1 ?l ?w2"
    using iterates.entry cond body by (rule iterates.next_iter)
  have "opened (captures ?w ''video.mp4'')" and "0 < frame_count (captures ?w ''video.mp4'')"
    and "(0::int) < 1" by simp_all
  from scan_invariant_extracted_eq_target_idx [OF mk this] it
  have "extracted ?l = target_idx ?l \<and> target_idx ?l \<le> 1" by simp
  with it show ?thesis by simp
qed

text \<open>
  Claim C10. Whenever the loop condition holds in a state of the scan loop,
  \<open>0 \<le> target_idx < num_frames\<close> and \<open>num_frames\<close> is the length of \<open>frame_indices\<close>, so
  the subscript \<open>frame_indices[target_idx]\<close> yields an entry and the body does not raise;
  \<open>extract_frames\<close> never raises \<open>IndexError\<close>.
\<close>

theorem scan_subscript_in_range:
  "(\<forall>l' w'. iterates video_path output_dir (frame_indices_of T num_frames) num_frames
               init_locals w0 l' w' \<longrightarrow>
             loop_cond video_path num_frames l' w' \<longrightarrow>
      0 \<le> target_idx l' \<and> target_idx l' < num_frames \<and>
      num_frames = int (length (frame_indices_of T num_frames)) \<and>
      py_index (frame_indices_of T num_frames) (target_idx l') =
        Inr (frame_indices_of T num_frames ! nat (target_idx l')) \<and>
      (\<forall>e l2 w2. loop_body video_path output_dir (frame_indices_of T num_frames) l' w' \<noteq>
                    Raise e l2 w2)) \<and>
   fst (extract_frames video_path output_dir num_frames w) \<noteq> Some IndexError"
proof (intro conjI allI impI)
  fix l' :: locals and w' :: "'a world"
  let ?fi = "frame_indices_of T num_frames"
  assume it: "iterates video_path output_dir ?fi num_frames init_locals w0 l' w'"
    and cond: "loop_cond video_path num_frames l' w'"
  from iterates_counters [OF it] show lo: "0 \<le> target_idx l'" by simp
  from cond show hi: "target_idx l' < num_frames" by (simp add: loop_cond_def)
  from lo hi show len: "num_frames = int (length ?fi)" by simp
  from lo hi len show ix: "py_index ?fi (target_idx l') = Inr (?fi ! nat (target_idx l'))"
    by (intro py_index_in_range) simp_all
  fix e l2 w2
  show "loop_body video_path output_dir ?fi l' w' \<noteq> Raise e l2 w2"
  proof
    assume "loop_body video_path output_dir ?fi l' w' = Raise e l2 w2"
    then have "py_index ?fi (target_idx l') = Inl e" by (rule loop_body_Raise_index)
    with ix show False by simp
  qed
next
  show "fst (extract_frames video_path output_dir num_frames w) \<noteq> Some IndexError"
  proof (cases "os_makedirs output_dir w")
    case (Inl e)
    with os_makedirs_Inl [OF Inl] show ?thesis
      by (auto simp: extract_frames_no_directory)
  next
    case (Inr w1)
    show ?thesis
    proof (cases "opened (captures w video_path)")
      case False
      then show ?thesis by (simp add: extract_frames_unopened [OF Inr])
    next
      case True
      show ?thesis
      proof (cases "frame_count (captures w video_path) \<le> 0")
        case le: True
        with True show ?thesis by (simp add: extract_frames_unknown_length [OF Inr])
      next
        case False
        then have pos: "0 < frame_count (captures w video_path)" by simp
        from scan_from_start [of video_path output_dir "frame_count (captures w video_path)"
            num_frames w1]
        obtain l w2 where "scan video_path output_dir
            (frame_indices_of (frame_count (captures w video_path)) num_frames) num_frames
            init_locals w1 = (None, l, w2)" by auto
        from extract_frames_run [OF Inr True pos this] show ?thesis by simp
      qed
    qed
  qed
qed

theorem scan_subscript_in_range_witness:
  "loop_cond ''video.mp4'' 2 \<lparr>extracted = 1, current_frame = 1, target_idx = 1\<rparr>
     (cv2_imwrite (frame_filename ''frames'' 0) 10
        (advance ''video.mp4'' [Some 11, Some 12]
           (world_with ''video.mp4'' (clip 3 [10, 11, 12 :: nat])))) \<and>
   py_index (frame_indices_of 3 2)
     (target_idx \<lparr>extracted = 1, current_frame = 1, target_idx = 1\<rparr>) = Inr 1 \<and>
   fst (extract_frames ''video.mp4'' ''frames'' 2
          (world_with ''video.mp4'' (clip 3 [10, 11, 12 :: nat]))) \<noteq> Some IndexError"
proof -
  let ?w = "world_with ''video.mp4'' (clip 3 [10, 11, 12 :: nat])"
  let ?l = "\<lparr>extracted = 1, current_frame = 1, target_idx = 1\<rparr>"
  let ?w2 = "cv2_imwrite (frame_filename ''frames'' 0) 10
               (advance ''video.mp4'' [Some 11, Some 12] ?w)"
  have cond: "loop_cond ''video.mp4'' 2 init_locals ?w"
    by (simp add: loop_cond_def isOpened_def)
  have body: "loop_body ''video.mp4'' ''frames'' (frame_indices_of 3 2) init_locals ?w =
                Next ?l ?w2"
    by (simp add: frame_indices_3_2 loop_body_def read_def py_index_def init_locals_def)
  have it: "iterates ''video.mp4'' ''frames'' (frame_indices_of 3 2) 2 init_locals ?w ?l ?w2"
    using iterates.entry cond body by (rule iterates.next_iter)
  have cond2: "loop_cond ''video.mp4'' 2 ?l ?w2"
    by (simp add: loop_cond_def isOpened_def)
  from scan_subscript_in_range [of "''video.mp4''" "''frames''" 3 2 ?w ?w] it cond2
  have "py_index (frame_indices_of 3 2) (target_idx ?l) =
          Inr (frame_indices_of 3 2 ! nat (target_idx ?l))"
    and "fst (extract_frames ''video.mp4'' ''frames'' 2 ?w) \<noteq> Some IndexError"
    by blast+
  with cond2 show ?thesis by (simp add: frame_indices_3_2)
qed

end
